theory Spec2Isabelle
  imports Main "HOL-Library.Word" "HOL-Library.Monad_Syntax"
begin

section \<open>Data model\<close>

text \<open>
  A shallow embedding of \<^verbatim>\<open>floppy_disk_image_file_to_serial_install.go\<close>.

  \<^item> A Go \<^verbatim>\<open>byte\<close> is an 8-bit word, a \<^verbatim>\<open>[]byte\<close> a list of them.
  \<^item> A Go \<^verbatim>\<open>int\<close> is modelled by \<open>int\<close>; the sums and differences that involve the
    caller-supplied segment size or byte count are wrapped to 64 bits by \<open>goInt\<close>, as
    the machine does. The other arithmetic of the program works on track numbers in
    \<open>[0,34]\<close>, sector numbers in \<open>[0,15]\<close> and offsets into the image, far from the
    limits.
  \<^item> Standard output is a list of strings, one element per \<^verbatim>\<open>fmt.Printf\<close> call.
  \<^item> A run ends by returning, by a panic, or (for the two loops whose step is the
    segment size, which need not make progress) by running out of fuel.
\<close>

type_synonym byte = "8 word"

definition goInt :: "int \<Rightarrow> int" where
  "goInt x = signed_take_bit 63 x"

datatype panic = PanicValue string | IndexOutOfRange | SliceBoundsOutOfRange

datatype status = Returned | Panicked panic | OutOfFuel

type_synonym run = "string list \<times> status"

text \<open>Sequencing of two pieces of the program: the second runs only if the first returned.\<close>

fun thenRun :: "run \<Rightarrow> run \<Rightarrow> run" where
  "thenRun (out1, Returned) (out2, st) = (out1 @ out2, st)"
| "thenRun (out1, Panicked e) r = (out1, Panicked e)"
| "thenRun (out1, OutOfFuel) r = (out1, OutOfFuel)"

text \<open>
  The image offset of a track and sector. Every call site passes a track number in
  \<open>[0,34]\<close> and a sector number in \<open>[0,15]\<close>.
\<close>

definition diskImageStartPosOfTrackSector :: "int \<Rightarrow> int \<Rightarrow> int" where
  "diskImageStartPosOfTrackSector trackNum sectorNum = 0x00001000 * trackNum + 0x00000100 * sectorNum"

section \<open>Sector Reorder Transform\<close>

text \<open>
  The three byte-copy loops run over 256 positions; an index outside the image (or the
  sector buffer) is a run-time panic, the value \<open>None\<close>. The sector buffer is the
  array \<^verbatim>\<open>[0x0100]byte\<close>, a list of 256 bytes.
\<close>

function readSectorLoop :: "byte list \<Rightarrow> byte list \<Rightarrow> int \<Rightarrow> int \<Rightarrow> byte list option" where
  "readSectorLoop sectorBuffer diskImage sourceBytesPos destinationPos =
     (if destinationPos < 0x0100 then
        (if 0 \<le> destinationPos \<and> destinationPos < int (length sectorBuffer) \<and>
            0 \<le> sourceBytesPos \<and> sourceBytesPos < int (length diskImage)
         then readSectorLoop (sectorBuffer[nat destinationPos := diskImage ! nat sourceBytesPos])
                diskImage (sourceBytesPos + 1) (destinationPos + 1)
         else None)
      else Some sectorBuffer)"
  by pat_completeness auto
termination
  by (relation "measure (\<lambda>(b, d, s, p). nat (0x0100 - p))") auto

definition readSectorDataToBuffer :: "byte list \<Rightarrow> byte list \<Rightarrow> int \<Rightarrow> int \<Rightarrow> byte list option" where
  "readSectorDataToBuffer sectorBuffer diskImage track sector =
     readSectorLoop sectorBuffer diskImage (diskImageStartPosOfTrackSector track sector) 0"

function writeSectorLoop :: "byte list \<Rightarrow> byte list \<Rightarrow> int \<Rightarrow> int \<Rightarrow> byte list option" where
  "writeSectorLoop sectorBuffer diskImage destinationBytesPos sourcePos =
     (if sourcePos < 0x0100 then
        (if 0 \<le> destinationBytesPos \<and> destinationBytesPos < int (length diskImage) \<and>
            0 \<le> sourcePos \<and> sourcePos < int (length sectorBuffer)
         then writeSectorLoop sectorBuffer
                (diskImage[nat destinationBytesPos := sectorBuffer ! nat sourcePos])
                (destinationBytesPos + 1) (sourcePos + 1)
         else None)
      else Some diskImage)"
  by pat_completeness auto
termination
  by (relation "measure (\<lambda>(b, d, p, s). nat (0x0100 - s))") auto

definition writeSectorDataFromBuffer :: "byte list \<Rightarrow> byte list \<Rightarrow> int \<Rightarrow> int \<Rightarrow> byte list option" where
  "writeSectorDataFromBuffer sectorBuffer diskImage track sector =
     writeSectorLoop sectorBuffer diskImage (diskImageStartPosOfTrackSector track sector) 0"

function copySectorLoop :: "byte list \<Rightarrow> int \<Rightarrow> int \<Rightarrow> int \<Rightarrow> byte list option" where
  "copySectorLoop diskImage sourceBytesPos destinationBytesPos bytesCopied =
     (if bytesCopied < 0x0100 then
        (if 0 \<le> destinationBytesPos \<and> destinationBytesPos < int (length diskImage) \<and>
            0 \<le> sourceBytesPos \<and> sourceBytesPos < int (length diskImage)
         then copySectorLoop (diskImage[nat destinationBytesPos := diskImage ! nat sourceBytesPos])
                (sourceBytesPos + 1) (destinationBytesPos + 1) (bytesCopied + 1)
         else None)
      else Some diskImage)"
  by pat_completeness auto
termination
  by (relation "measure (\<lambda>(d, s, p, c). nat (0x0100 - c))") auto

definition copySectorDataInImage :: "byte list \<Rightarrow> int \<Rightarrow> int \<Rightarrow> int \<Rightarrow> byte list option" where
  "copySectorDataInImage diskImage track sourceSector destinationSector =
     copySectorLoop diskImage (diskImageStartPosOfTrackSector track sourceSector)
       (diskImageStartPosOfTrackSector track destinationSector) 0"

text \<open>The body of the \<^verbatim>\<open>for track\<close> loop: the 21 calls, in the order of the source.\<close>

definition reorderTrack :: "byte list \<Rightarrow> byte list \<Rightarrow> int \<Rightarrow> (byte list \<times> byte list) option" where
  "reorderTrack sectorBuffer diskImage track = do {
     sectorBuffer \<leftarrow> readSectorDataToBuffer sectorBuffer diskImage track 0x01;
     diskImage \<leftarrow> copySectorDataInImage diskImage track 0x0E 0x01;
     diskImage \<leftarrow> writeSectorDataFromBuffer sectorBuffer diskImage track 0x0E;
     sectorBuffer \<leftarrow> readSectorDataToBuffer sectorBuffer diskImage track 0x02;
     diskImage \<leftarrow> copySectorDataInImage diskImage track 0x0D 0x02;
     diskImage \<leftarrow> writeSectorDataFromBuffer sectorBuffer diskImage track 0x0D;
     sectorBuffer \<leftarrow> readSectorDataToBuffer sectorBuffer diskImage track 0x03;
     diskImage \<leftarrow> copySectorDataInImage diskImage track 0x0C 0x03;
     diskImage \<leftarrow> writeSectorDataFromBuffer sectorBuffer diskImage track 0x0C;
     sectorBuffer \<leftarrow> readSectorDataToBuffer sectorBuffer diskImage track 0x04;
     diskImage \<leftarrow> copySectorDataInImage diskImage track 0x0B 0x04;
     diskImage \<leftarrow> writeSectorDataFromBuffer sectorBuffer diskImage track 0x0B;
     sectorBuffer \<leftarrow> readSectorDataToBuffer sectorBuffer diskImage track 0x05;
     diskImage \<leftarrow> copySectorDataInImage diskImage track 0x0A 0x05;
     diskImage \<leftarrow> writeSectorDataFromBuffer sectorBuffer diskImage track 0x0A;
     sectorBuffer \<leftarrow> readSectorDataToBuffer sectorBuffer diskImage track 0x06;
     diskImage \<leftarrow> copySectorDataInImage diskImage track 0x09 0x06;
     diskImage \<leftarrow> writeSectorDataFromBuffer sectorBuffer diskImage track 0x09;
     sectorBuffer \<leftarrow> readSectorDataToBuffer sectorBuffer diskImage track 0x07;
     diskImage \<leftarrow> copySectorDataInImage diskImage track 0x08 0x07;
     diskImage \<leftarrow> writeSectorDataFromBuffer sectorBuffer diskImage track 0x08;
     Some (sectorBuffer, diskImage)
   }"

function convertLoop :: "byte list \<Rightarrow> byte list \<Rightarrow> int \<Rightarrow> byte list option" where
  "convertLoop sectorBuffer diskImage track =
     (if track < 0x23 then
        (case reorderTrack sectorBuffer diskImage track of
           None \<Rightarrow> None
         | Some (sectorBuffer', diskImage') \<Rightarrow> convertLoop sectorBuffer' diskImage' (track + 1))
      else Some diskImage)"
  by pat_completeness auto
termination
  by (relation "measure (\<lambda>(b, d, t). nat (0x23 - t))") auto

text \<open>
  The source reorders the slice in place; the model returns the reordered image, or
  \<open>None\<close> when the run panics.
\<close>

definition convertDiskImageFromProdosOrderToDos33Order :: "byte list \<Rightarrow> byte list option" where
  "convertDiskImageFromProdosOrderToDos33Order diskImage =
     convertLoop (replicate 0x0100 0) diskImage 0x00"

section \<open>The formatting verbs of package fmt\<close>

text \<open>
  \<^verbatim>\<open>%02X\<close> of a non-negative number: upper-case hexadecimal digits, most significant
  first, padded with zeros on the left to a width of at least two. \<^verbatim>\<open>%d\<close>: decimal
  digits with a minus sign for a negative number.
\<close>

definition hexDigit :: "nat \<Rightarrow> char" where
  "hexDigit d = ''0123456789ABCDEF'' ! d"

fun hexDigits :: "nat \<Rightarrow> string" where
  "hexDigits n = (if n < 16 then [hexDigit n] else hexDigits (n div 16) @ [hexDigit (n mod 16)])"

definition sprintf_02X :: "nat \<Rightarrow> string" where
  "sprintf_02X v = (let ds = hexDigits v in replicate (2 - length ds) (CHR ''0'') @ ds)"

definition decDigit :: "nat \<Rightarrow> char" where
  "decDigit d = ''0123456789'' ! d"

fun decDigits :: "nat \<Rightarrow> string" where
  "decDigits n = (if n < 10 then [decDigit n] else decDigits (n div 10) @ [decDigit (n mod 10)])"

definition sprintf_d :: "int \<Rightarrow> string" where
  "sprintf_d v = (if v < 0 then CHR ''-'' # decDigits (nat (- v)) else decDigits (nat v))"

section \<open>Memory Segment Encoder\<close>

definition LINE_START_PAD_LENGTH :: nat where
  "LINE_START_PAD_LENGTH = 16"

definition generateLineStartPad :: string where
  "generateLineStartPad = replicate LINE_START_PAD_LENGTH (CHR '' '')"

definition generateMemoryAddress :: "int \<Rightarrow> string" where
  "generateMemoryAddress targetStartAddress =
     (if targetStartAddress < 0 then [] else sprintf_02X (nat targetStartAddress))"

text \<open>
  The \<^verbatim>\<open>range\<close> loop over the bytes: \<open>n\<close> is \<^verbatim>\<open>len(byteWriteGroup)\<close>, \<open>i\<close> the index of the
  next byte and \<open>sb\<close> the content of the string builder.
\<close>

fun byteWriteGroupLoop :: "nat \<Rightarrow> nat \<Rightarrow> byte list \<Rightarrow> string \<Rightarrow> string" where
  "byteWriteGroupLoop n i [] sb = sb"
| "byteWriteGroupLoop n i (b # bs) sb =
     byteWriteGroupLoop n (Suc i) bs
       (sb @ (if int i = int n - 1 then sprintf_02X (unat b) else sprintf_02X (unat b) @ '' ''))"

definition generateByteWriteGroupStringFromBytes :: "byte list \<Rightarrow> string" where
  "generateByteWriteGroupStringFromBytes byteWriteGroup =
     byteWriteGroupLoop (length byteWriteGroup) 0 byteWriteGroup []"

text \<open>
  The slice expression \<^verbatim>\<open>xs[lo:hi]\<close>, which panics unless \<open>0 \<le> lo \<le> hi \<le> cap(xs)\<close>.
  Its only use passes an upper bound that is at most \<^verbatim>\<open>len(xs)\<close>, so the length stands
  for the capacity.
\<close>

definition sliceBytes :: "byte list \<Rightarrow> int \<Rightarrow> int \<Rightarrow> byte list option" where
  "sliceBytes xs lo hi =
     (if 0 \<le> lo \<and> lo \<le> hi \<and> hi \<le> int (length xs)
      then Some (take (nat hi - nat lo) (drop (nat lo) xs)) else None)"

text \<open>The line printed by \<^verbatim>\<open>fmt.Printf("%s%s:%s\r", ...)\<close>.\<close>

definition printfLine :: "string \<Rightarrow> string \<Rightarrow> string \<Rightarrow> string" where
  "printfLine lineStartPad memoryAddress byteWriteGroupString =
     lineStartPad @ memoryAddress @ '':'' @ byteWriteGroupString @ [CHR 0x0D]"

definition writeCommandsToFillAppleMemorySegment ::
  "byte list \<Rightarrow> string \<Rightarrow> int \<Rightarrow> int \<Rightarrow> int \<Rightarrow> run" where
  "writeCommandsToFillAppleMemorySegment sourceBytes lineStartPad targetStartAddress
      sourceBytesStartPos writeByteCount =
     (let memoryAddress = generateMemoryAddress targetStartAddress;
          sourceBytesEndPos = goInt (sourceBytesStartPos + writeByteCount);
          sourceBytesEndPos =
            (if sourceBytesEndPos > int (length sourceBytes) then int (length sourceBytes)
             else sourceBytesEndPos)
      in case sliceBytes sourceBytes sourceBytesStartPos sourceBytesEndPos of
           None \<Rightarrow> ([], Panicked SliceBoundsOutOfRange)
         | Some byteWriteGroup \<Rightarrow>
             ([printfLine lineStartPad memoryAddress
                 (generateByteWriteGroupStringFromBytes byteWriteGroup)], Returned))"

section \<open>Track Loader Script Generator\<close>

text \<open>The nine calls under \<^verbatim>\<open>if firstCommand\<close>.\<close>

definition rampUp :: "byte list \<Rightarrow> string \<Rightarrow> int \<Rightarrow> int \<Rightarrow> int \<Rightarrow> run" where
  "rampUp diskImage lineStartPad targetStartAddress sourceBytesStartPos SEGMENT_SIZE =
     thenRun (writeCommandsToFillAppleMemorySegment diskImage lineStartPad targetStartAddress sourceBytesStartPos (goInt (SEGMENT_SIZE - 8)))
    (thenRun (writeCommandsToFillAppleMemorySegment diskImage lineStartPad targetStartAddress sourceBytesStartPos (goInt (SEGMENT_SIZE - 7)))
    (thenRun (writeCommandsToFillAppleMemorySegment diskImage lineStartPad targetStartAddress sourceBytesStartPos (goInt (SEGMENT_SIZE - 6)))
    (thenRun (writeCommandsToFillAppleMemorySegment diskImage lineStartPad targetStartAddress sourceBytesStartPos (goInt (SEGMENT_SIZE - 5)))
    (thenRun (writeCommandsToFillAppleMemorySegment diskImage lineStartPad targetStartAddress sourceBytesStartPos (goInt (SEGMENT_SIZE - 4)))
    (thenRun (writeCommandsToFillAppleMemorySegment diskImage lineStartPad targetStartAddress sourceBytesStartPos (goInt (SEGMENT_SIZE - 3)))
    (thenRun (writeCommandsToFillAppleMemorySegment diskImage lineStartPad targetStartAddress sourceBytesStartPos (goInt (SEGMENT_SIZE - 2)))
    (thenRun (writeCommandsToFillAppleMemorySegment diskImage lineStartPad targetStartAddress sourceBytesStartPos (goInt (SEGMENT_SIZE - 1)))
             (writeCommandsToFillAppleMemorySegment diskImage lineStartPad targetStartAddress sourceBytesStartPos SEGMENT_SIZE))))))))"

text \<open>
  The \<^verbatim>\<open>for bytesWritten < diskImageWriteByteCount\<close> loop; one unit of fuel per test of
  the loop condition.
\<close>

fun loadDiskTrackLoop ::
  "nat \<Rightarrow> byte list \<Rightarrow> int \<Rightarrow> string \<Rightarrow> int \<Rightarrow> int \<Rightarrow> int \<Rightarrow> int \<Rightarrow> bool \<Rightarrow> run" where
  "loadDiskTrackLoop 0 diskImage SEGMENT_SIZE lineStartPad diskImageWriteByteCount
      bytesWritten targetStartAddress sourceBytesStartPos firstCommand = ([], OutOfFuel)"
| "loadDiskTrackLoop (Suc fuel) diskImage SEGMENT_SIZE lineStartPad diskImageWriteByteCount
      bytesWritten targetStartAddress sourceBytesStartPos firstCommand =
     (if bytesWritten < diskImageWriteByteCount then
        thenRun (if firstCommand
                 then rampUp diskImage lineStartPad targetStartAddress sourceBytesStartPos SEGMENT_SIZE
                 else ([], Returned))
       (thenRun (writeCommandsToFillAppleMemorySegment diskImage lineStartPad targetStartAddress
                   sourceBytesStartPos SEGMENT_SIZE)
                (loadDiskTrackLoop fuel diskImage SEGMENT_SIZE lineStartPad diskImageWriteByteCount
                   (goInt (bytesWritten + SEGMENT_SIZE))
                   (goInt (targetStartAddress + SEGMENT_SIZE))
                   (goInt (sourceBytesStartPos + SEGMENT_SIZE)) False))
      else ([], Returned))"

definition illegalTrackMessage :: "int \<Rightarrow> string" where
  "illegalTrackMessage trackNum =
     ''illegal track number encountered: '' @ sprintf_d trackNum @ [CHR 0x0A]"

definition writeCommandsToLoadDiskTrackToMemory :: "nat \<Rightarrow> byte list \<Rightarrow> int \<Rightarrow> int \<Rightarrow> run" where
  "writeCommandsToLoadDiskTrackToMemory fuel diskImage trackNum SEGMENT_SIZE =
     (if trackNum < 0x0 \<or> trackNum > 0x22
      then ([], Panicked (PanicValue (illegalTrackMessage trackNum)))
      else loadDiskTrackLoop fuel diskImage SEGMENT_SIZE generateLineStartPad 0x1000
             0 0x2000 (diskImageStartPosOfTrackSector trackNum 0x00) True)"

section \<open>Client Program Loader and Executor\<close>

definition trackNumArray :: "byte list" where
  "trackNumArray =
     [0x00, 0x01, 0x02, 0x03, 0x04, 0x05, 0x06, 0x07, 0x08, 0x09, 0x0A, 0x0B, 0x0C, 0x0D, 0x0E, 0x0F,
      0x10, 0x11, 0x12, 0x13, 0x14, 0x15, 0x16, 0x17, 0x18, 0x19, 0x1A, 0x1B, 0x1C, 0x1D, 0x1E, 0x1F,
      0x20, 0x21, 0x22]"

definition clientProgram :: "byte \<Rightarrow> byte list" where
  "clientProgram trackNumByte =
     [0xA9, 0x0C,
      0xA0, 0x1C,
      0x20, 0xD9, 0x03,
      0xB0, 0x12,
      0xA9, 0x0F,
      0xCD, 0x21, 0x0C,
      0xF0, 0x0A,
      0xEE, 0x21, 0x0C,
      0xEE, 0x25, 0x0C,
      0xF0, 0xE8,
      0xD0, 0xE6,
      0x60,
      0x00,
      0x01, 0x60, 0x01, 0x00, trackNumByte, 0x00,
      0x30, 0x0C,
      0x00, 0x20,
      0x00, 0x00, 0x02,
      0x00, 0x00, 0x60, 0x01,
      0x00, 0x00, 0x00,
      0x00, 0x01, 0xEF, 0xD8]"

fun loadClientLoop ::
  "nat \<Rightarrow> byte list \<Rightarrow> int \<Rightarrow> string \<Rightarrow> int \<Rightarrow> int \<Rightarrow> int \<Rightarrow> int \<Rightarrow> run" where
  "loadClientLoop 0 clientProg SEGMENT_SIZE lineStartPad clientWriteByteCount
      bytesWritten targetStartAddress sourceBytesStartPos = ([], OutOfFuel)"
| "loadClientLoop (Suc fuel) clientProg SEGMENT_SIZE lineStartPad clientWriteByteCount
      bytesWritten targetStartAddress sourceBytesStartPos =
     (if bytesWritten < clientWriteByteCount then
        thenRun (writeCommandsToFillAppleMemorySegment clientProg lineStartPad targetStartAddress
                   sourceBytesStartPos SEGMENT_SIZE)
                (loadClientLoop fuel clientProg SEGMENT_SIZE lineStartPad clientWriteByteCount
                   (goInt (bytesWritten + SEGMENT_SIZE))
                   (goInt (targetStartAddress + SEGMENT_SIZE))
                   (goInt (sourceBytesStartPos + SEGMENT_SIZE)))
      else ([], Returned))"

definition writeCommandsToLoadRWTSClientProgramToMemory :: "nat \<Rightarrow> int \<Rightarrow> int \<Rightarrow> run" where
  "writeCommandsToLoadRWTSClientProgramToMemory fuel trackNum SEGMENT_SIZE =
     (if 0 \<le> trackNum \<and> trackNum < int (length trackNumArray) then
        (let trackNumByte = trackNumArray ! nat trackNum;
             clientProg = clientProgram trackNumByte
         in loadClientLoop fuel clientProg SEGMENT_SIZE generateLineStartPad
              (int (length clientProg)) 0 0x0C00 0)
      else ([], Panicked IndexOutOfRange))"

text \<open>The line \<^verbatim>\<open>executeClient\<close> prints on standard output (its report goes to standard error).\<close>

definition executeClient :: "int \<Rightarrow> run" where
  "executeClient trackNum = ([generateLineStartPad @ ''C00G'' @ [CHR 0x0D]], Returned)"

text \<open>
  The program as \<^verbatim>\<open>main\<close> runs it once the image file has been read and the track
  argument parsed; the segment size is the constant 8.
\<close>

definition main :: "nat \<Rightarrow> byte list \<Rightarrow> int \<Rightarrow> run" where
  "main fuel diskImage trackNumInt =
     (case convertDiskImageFromProdosOrderToDos33Order diskImage of
        None \<Rightarrow> ([], Panicked IndexOutOfRange)
      | Some reordered \<Rightarrow>
          thenRun (writeCommandsToLoadDiskTrackToMemory fuel reordered trackNumInt 8)
         (thenRun (writeCommandsToLoadRWTSClientProgramToMemory fuel trackNumInt 8)
                  (executeClient trackNumInt)))"

section \<open>Notions used in the statements and proofs\<close>

text \<open>
  The offset of sector \<open>c\<close> of track \<open>t\<close> as a natural number, the 256 bytes an image
  holds there, and the sector permutation of the specification: 0 and 15 are fixed,
  \<open>c\<close> and \<open>15 - c\<close> trade places otherwise.
\<close>

definition sectorPos :: "nat \<Rightarrow> nat \<Rightarrow> nat" where
  "sectorPos t c = 4096 * t + 256 * c"

text \<open>
  Where an index of the image reads from after two sectors at \<open>pa\<close> and \<open>pb\<close> have been
  exchanged, after the seven exchanges of one track (\<open>trackIdx\<close>), and after the tracks
  from \<open>k\<close> on have been reordered (\<open>imageIdx\<close>). A rotation group is one exchange as the
  source writes it: read, copy, write.
\<close>

definition swapIdx :: "nat \<Rightarrow> nat \<Rightarrow> nat \<Rightarrow> nat" where
  "swapIdx pa pb i =
     (if pa \<le> i \<and> i < pa + 256 then pb + (i - pa)
      else if pb \<le> i \<and> i < pb + 256 then pa + (i - pb) else i)"

definition rotationGroup :: "byte list \<Rightarrow> byte list \<Rightarrow> int \<Rightarrow> int \<Rightarrow> int \<Rightarrow> (byte list \<times> byte list) option" where
  "rotationGroup sectorBuffer diskImage track a b = do {
     sectorBuffer \<leftarrow> readSectorDataToBuffer sectorBuffer diskImage track a;
     diskImage \<leftarrow> copySectorDataInImage diskImage track b a;
     diskImage \<leftarrow> writeSectorDataFromBuffer sectorBuffer diskImage track b;
     Some (sectorBuffer, diskImage)
   }"

definition SectorOrderMapping :: "nat \<Rightarrow> nat" where
  "SectorOrderMapping c = (if c = 0 \<or> c = 15 then c else 15 - c)"

definition trackIdx :: "nat \<Rightarrow> nat \<Rightarrow> nat" where
  "trackIdx t i =
     swapIdx (sectorPos t 1) (sectorPos t 14)
    (swapIdx (sectorPos t 2) (sectorPos t 13)
    (swapIdx (sectorPos t 3) (sectorPos t 12)
    (swapIdx (sectorPos t 4) (sectorPos t 11)
    (swapIdx (sectorPos t 5) (sectorPos t 10)
    (swapIdx (sectorPos t 6) (sectorPos t 9)
    (swapIdx (sectorPos t 7) (sectorPos t 8) i))))))"

definition imageIdx :: "nat \<Rightarrow> nat \<Rightarrow> nat" where
  "imageIdx k i = (if 4096 * k \<le> i \<and> i < 4096 * 35 then trackIdx (i div 4096) i else i)"

definition sectorBytes :: "byte list \<Rightarrow> int \<Rightarrow> int \<Rightarrow> byte list" where
  "sectorBytes diskImage track sector =
     take 256 (drop (nat (diskImageStartPosOfTrackSector track sector)) diskImage)"

text \<open>
  The alphabet of upper-case hexadecimal, the number a string of such digits denotes,
  the two digits of a byte, and strings joined by single spaces.
\<close>

definition hexAlphabet :: "char set" where
  "hexAlphabet = set ''0123456789ABCDEF''"

definition hexDigitValue :: "char \<Rightarrow> nat" where
  "hexDigitValue c = (if of_char c < (65::nat) then of_char c - 48 else of_char c - 55)"

definition hexValue :: "string \<Rightarrow> nat" where
  "hexValue s = foldl (\<lambda>acc c. 16 * acc + hexDigitValue c) 0 s"

definition hexByte :: "byte \<Rightarrow> string" where
  "hexByte b = [hexDigit (unat b div 16), hexDigit (unat b mod 16)]"

fun spaceSeparated :: "string list \<Rightarrow> string" where
  "spaceSeparated [] = []"
| "spaceSeparated [x] = x"
| "spaceSeparated (x # y # ys) = x @ '' '' @ spaceSeparated (y # ys)"

declare hexDigits.simps [simp del] decDigits.simps [simp del]

text \<open>
  The command line of the specification, \<^verbatim>\<open><pad><address-or-empty>:<hex bytes><CR>\<close>, for
  an address and a payload; the lines of the steady-state segments \<open>k\<close> to \<open>k + n - 1\<close>
  of a transfer; and the nine lines of the ramp.
\<close>

definition commandLine :: "int \<Rightarrow> byte list \<Rightarrow> string" where
  "commandLine address payload =
     generateLineStartPad @ generateMemoryAddress address @ '':'' @
     spaceSeparated (map hexByte payload) @ [CHR 0x0D]"

definition segmentLines :: "byte list \<Rightarrow> int \<Rightarrow> int \<Rightarrow> int \<Rightarrow> nat \<Rightarrow> nat \<Rightarrow> string list" where
  "segmentLines src SEGMENT_SIZE target start k n =
     map (\<lambda>j. commandLine (target + int j * SEGMENT_SIZE)
                (take (nat SEGMENT_SIZE) (drop (nat (start + int j * SEGMENT_SIZE)) src)))
       [k..<k + n]"

definition rampLines :: "byte list \<Rightarrow> int \<Rightarrow> int \<Rightarrow> int \<Rightarrow> string list" where
  "rampLines src SEGMENT_SIZE target start =
     map (\<lambda>i. commandLine target (take (nat (SEGMENT_SIZE - 8) + i) (drop (nat start) src))) [0..<9]"

text \<open>
  A line begins with the pad of 16 spaces, ends with a carriage return, and holds no
  other carriage return and no line feed. A run is orderly when every line it wrote is
  such a line and it did not end in a panic raised by the program itself.
\<close>

definition wellFormedLine :: "string \<Rightarrow> bool" where
  "wellFormedLine l =
     (take 16 l = replicate 16 (CHR '' '') \<and> 17 \<le> length l \<and> last l = CHR 0x0D \<and>
      CHR 0x0D \<notin> set (butlast l) \<and> CHR 0x0A \<notin> set l)"

definition orderly :: "run \<Rightarrow> bool" where
  "orderly r = ((\<forall>l\<in>set (fst r). wellFormedLine l) \<and> (\<forall>m. snd r \<noteq> Panicked (PanicValue m)))"

text \<open>The bytes of steady-state segment \<open>j\<close> of a transfer that starts at offset \<open>start\<close>.\<close>

definition segmentPayload :: "byte list \<Rightarrow> int \<Rightarrow> int \<Rightarrow> nat \<Rightarrow> byte list" where
  "segmentPayload src SEGMENT_SIZE start j =
     take (nat SEGMENT_SIZE) (drop (nat (start + int j * SEGMENT_SIZE)) src)"



text \<open>
  The layout of the specification: the byte of track \<open>t\<close>, sector \<open>c\<close> and position \<open>j\<close>
  lies at offset \<open>0x1000 * t + 0x100 * c + j\<close> of the image; \<open>sectorAt\<close> is the sector's 256
  bytes.
\<close>

definition sectorAt :: "byte list \<Rightarrow> nat \<Rightarrow> nat \<Rightarrow> byte list" where
  "sectorAt diskImage t c = take 0x100 (drop (0x1000 * t + 0x100 * c) diskImage)"

text \<open>
  An image for the examples: the byte at offset \<open>i\<close> is the number of its 256-byte
  sector plus \<open>i\<close>, modulo 256, so that neither two sectors of a track nor the bytes
  of a segment are alike.
\<close>

definition exampleImage :: "byte list" where
  "exampleImage = map (\<lambda>i. of_nat (i div 256 + i)) [0..<143360]"

text \<open>
  Reading a command line back: the number its address field denotes (the hexadecimal
  digits between the 16 characters of the pad and the colon) and the bytes its payload
  field denotes (pairs of hexadecimal digits separated by single spaces, between the
  colon and the carriage return).
\<close>

definition lineAddress :: "string \<Rightarrow> nat" where
  "lineAddress l = hexValue (takeWhile (\<lambda>c. c \<noteq> CHR '':'') (drop 16 l))"

fun decodeBytes :: "string \<Rightarrow> byte list" where
  "decodeBytes (h # l # c # more) =
     of_nat (hexValue [h, l]) # (if c = CHR '' '' then decodeBytes more else [])"
| "decodeBytes [h, l] = [of_nat (hexValue [h, l])]"
| "decodeBytes _ = []"

definition linePayload :: "string \<Rightarrow> byte list" where
  "linePayload l =
     decodeBytes (takeWhile (\<lambda>c. c \<noteq> CHR 0x0D)
       (drop 1 (dropWhile (\<lambda>c. c \<noteq> CHR '':'') (drop 16 l))))"

section \<open>The reorder transform exchanges sectors\<close>

declare readSectorLoop.simps [simp del] writeSectorLoop.simps [simp del]
  copySectorLoop.simps [simp del] convertLoop.simps [simp del]

lemma readSectorLoop_ok:
  "length buf = 256 \<Longrightarrow> p \<le> 256 \<Longrightarrow> sp + 256 \<le> length img + p \<Longrightarrow>
   \<exists>r. readSectorLoop buf img (int sp) (int p) = Some r \<and> length r = 256 \<and>
       (\<forall>j<256. r ! j = (if j < p then buf ! j else img ! (sp + (j - p))))"
proof (induction "256 - p" arbitrary: p sp buf)
  case 0
  then show ?case by (simp add: readSectorLoop.simps)
next
  case (Suc k)
  then have p: "p < 256" by simp
  have sp: "sp < length img" using p Suc.prems by linarith
  let ?buf = "buf[p := img ! sp]"
  from Suc have "\<exists>r. readSectorLoop ?buf img (int (Suc sp)) (int (Suc p)) = Some r \<and> length r = 256 \<and>
       (\<forall>j<256. r ! j = (if j < Suc p then ?buf ! j else img ! (Suc sp + (j - Suc p))))"
    by (intro Suc.hyps(1)) auto
  then obtain r where r: "readSectorLoop ?buf img (int (Suc sp)) (int (Suc p)) = Some r" "length r = 256"
      "\<forall>j<256. r ! j = (if j < Suc p then ?buf ! j else img ! (Suc sp + (j - Suc p)))" by blast
  have "readSectorLoop buf img (int sp) (int p) = readSectorLoop ?buf img (int sp + 1) (int p + 1)"
    using p sp Suc.prems(1) by (subst readSectorLoop.simps) simp
  also have "\<dots> = Some r" using r(1) by (simp add: add.commute)
  finally have 1: "readSectorLoop buf img (int sp) (int p) = Some r" .
  have "\<forall>j<256. r ! j = (if j < p then buf ! j else img ! (sp + (j - p)))"
  proof (intro allI impI)
    fix j :: nat assume j: "j < 256"
    consider "j < p" | "j = p" | "p < j" by linarith
    then show "r ! j = (if j < p then buf ! j else img ! (sp + (j - p)))"
    proof cases
      case 1
      then show ?thesis using r(3) j by simp
    next
      case 2
      then show ?thesis using r(3) j p Suc.prems(1) by simp
    next
      case 3
      then have "Suc sp + (j - Suc p) = sp + (j - p)" by simp
      then show ?thesis using r(3) j 3 by simp
    qed
  qed
  with 1 r(2) show ?case by blast
qed

lemma writeSectorLoop_ok:
  "length buf = 256 \<Longrightarrow> p \<le> 256 \<Longrightarrow> dp + 256 \<le> length img + p \<Longrightarrow>
   \<exists>r. writeSectorLoop buf img (int dp) (int p) = Some r \<and> length r = length img \<and>
       (\<forall>i<length img. r ! i = (if dp \<le> i \<and> i + p < dp + 256 then buf ! (p + (i - dp)) else img ! i))"
proof (induction "256 - p" arbitrary: p dp img)
  case 0
  then show ?case by (auto simp: writeSectorLoop.simps)
next
  case (Suc k)
  then have p: "p < 256" by simp
  have dp: "dp < length img" using p Suc.prems by linarith
  let ?img = "img[dp := buf ! p]"
  from Suc have "\<exists>r. writeSectorLoop buf ?img (int (Suc dp)) (int (Suc p)) = Some r \<and> length r = length ?img \<and>
       (\<forall>i<length ?img. r ! i = (if Suc dp \<le> i \<and> i + Suc p < Suc dp + 256 then buf ! (Suc p + (i - Suc dp)) else ?img ! i))"
    by (intro Suc.hyps(1)) auto
  then obtain r where r: "writeSectorLoop buf ?img (int (Suc dp)) (int (Suc p)) = Some r" "length r = length img"
      "\<forall>i<length img. r ! i = (if Suc dp \<le> i \<and> i + Suc p < Suc dp + 256 then buf ! (Suc p + (i - Suc dp)) else ?img ! i)"
    by auto
  have "writeSectorLoop buf img (int dp) (int p) = writeSectorLoop buf ?img (int dp + 1) (int p + 1)"
    using p dp Suc.prems(1) by (subst writeSectorLoop.simps) simp
  also have "\<dots> = Some r" using r(1) by (simp add: add.commute)
  finally have 1: "writeSectorLoop buf img (int dp) (int p) = Some r" .
  have "\<forall>i<length img. r ! i = (if dp \<le> i \<and> i + p < dp + 256 then buf ! (p + (i - dp)) else img ! i)"
  proof (intro allI impI)
    fix i assume i: "i < length img"
    consider "i < dp" | "i = dp" | "dp < i" by linarith
    then show "r ! i = (if dp \<le> i \<and> i + p < dp + 256 then buf ! (p + (i - dp)) else img ! i)"
    proof cases
      case 1
      then show ?thesis using r(3) i by simp
    next
      case 2
      then show ?thesis using r(3) i p by simp
    next
      case 3
      then have "Suc p + (i - Suc dp) = p + (i - dp)" by simp
      then show ?thesis using r(3) i 3 by simp
    qed
  qed
  with 1 r(2) show ?case by blast
qed

lemma copySectorLoop_ok:
  "c \<le> 256 \<Longrightarrow> sp + 256 \<le> length img + c \<Longrightarrow> dp + 256 \<le> length img + c \<Longrightarrow>
   sp + 256 \<le> dp + c \<or> dp + 256 \<le> sp + c \<Longrightarrow>
   \<exists>r. copySectorLoop img (int sp) (int dp) (int c) = Some r \<and> length r = length img \<and>
       (\<forall>i<length img. r ! i = (if dp \<le> i \<and> i + c < dp + 256 then img ! (sp + (i - dp)) else img ! i))"
proof (induction "256 - c" arbitrary: c sp dp img)
  case 0
  then show ?case by (auto simp: copySectorLoop.simps)
next
  case (Suc k)
  then have c: "c < 256" by simp
  have dp: "dp < length img" and sp: "sp < length img" using c Suc.prems by linarith+
  have ne: "sp \<noteq> dp" using c Suc.prems(4) by linarith
  let ?img = "img[dp := img ! sp]"
  have "\<exists>r. copySectorLoop ?img (int (Suc sp)) (int (Suc dp)) (int (Suc c)) = Some r \<and> length r = length ?img \<and>
       (\<forall>i<length ?img. r ! i = (if Suc dp \<le> i \<and> i + Suc c < Suc dp + 256 then ?img ! (Suc sp + (i - Suc dp)) else ?img ! i))"
    using Suc.hyps(2) Suc.prems c by (intro Suc.hyps(1)) auto
  then obtain r where r: "copySectorLoop ?img (int (Suc sp)) (int (Suc dp)) (int (Suc c)) = Some r" "length r = length img"
      "\<forall>i<length img. r ! i = (if Suc dp \<le> i \<and> i + Suc c < Suc dp + 256 then ?img ! (Suc sp + (i - Suc dp)) else ?img ! i)"
    by auto
  have "copySectorLoop img (int sp) (int dp) (int c) = copySectorLoop ?img (int sp + 1) (int dp + 1) (int c + 1)"
    using c dp sp by (subst copySectorLoop.simps) simp
  also have "\<dots> = Some r" using r(1) by (simp add: add.commute)
  finally have 1: "copySectorLoop img (int sp) (int dp) (int c) = Some r" .
  have "\<forall>i<length img. r ! i = (if dp \<le> i \<and> i + c < dp + 256 then img ! (sp + (i - dp)) else img ! i)"
  proof (intro allI impI)
    fix i assume i: "i < length img"
    consider "i < dp" | "i = dp" | "dp < i" "i + c < dp + 256" | "dp < i" "\<not> i + c < dp + 256" by linarith
    then show "r ! i = (if dp \<le> i \<and> i + c < dp + 256 then img ! (sp + (i - dp)) else img ! i)"
    proof cases
      case 1
      then show ?thesis using r(3) i by simp
    next
      case 2
      then show ?thesis using r(3) i c by simp
    next
      case 3
      then have e: "Suc sp + (i - Suc dp) = sp + (i - dp)" by simp
      have "sp + (i - dp) \<noteq> dp" using 3 Suc.prems(4) by linarith
      then show ?thesis using r(3) i 3 e by simp
    next
      case 4
      then show ?thesis using r(3) i by simp
    qed
  qed
  with 1 r(2) show ?case by blast
qed

lemma startPos_nat: "diskImageStartPosOfTrackSector (int t) (int c) = int (sectorPos t c)"
  by (simp add: diskImageStartPosOfTrackSector_def sectorPos_def)

lemma rotationGroup_ok:
  assumes buf: "length buf = 256" and ab: "a \<noteq> b"
    and la: "sectorPos t a + 256 \<le> length img" and lb: "sectorPos t b + 256 \<le> length img"
  shows "\<exists>buf' img'. rotationGroup buf img (int t) (int a) (int b) = Some (buf', img') \<and>
           length buf' = 256 \<and> length img' = length img \<and>
           (\<forall>i<length img. img' ! i = img ! swapIdx (sectorPos t a) (sectorPos t b) i)"
proof -
  define pa pb where "pa = sectorPos t a" and "pb = sectorPos t b"
  have disj: "pb + 256 \<le> pa \<or> pa + 256 \<le> pb"
    using ab unfolding pa_def pb_def sectorPos_def by linarith
  have la': "pa + 256 \<le> length img" and lb': "pb + 256 \<le> length img"
    using la lb by (simp_all add: pa_def pb_def)
  from readSectorLoop_ok [of buf 0 pa img] buf la'
  obtain b1 where b1: "readSectorLoop buf img (int pa) 0 = Some b1" "length b1 = 256"
      "\<forall>j<256. b1 ! j = img ! (pa + j)"
    by auto
  from copySectorLoop_ok [of 0 pb img pa] la' lb' disj
  obtain i1 where i1: "copySectorLoop img (int pb) (int pa) 0 = Some i1" "length i1 = length img"
      "\<forall>i<length img. i1 ! i = (if pa \<le> i \<and> i < pa + 256 then img ! (pb + (i - pa)) else img ! i)"
    by auto
  from writeSectorLoop_ok [of b1 0 pb i1] b1(2) lb' i1(2)
  obtain i2 where i2: "writeSectorLoop b1 i1 (int pb) 0 = Some i2" "length i2 = length img"
      "\<forall>i<length img. i2 ! i = (if pb \<le> i \<and> i < pb + 256 then b1 ! (i - pb) else i1 ! i)"
    by auto
  have run: "rotationGroup buf img (int t) (int a) (int b) = Some (b1, i2)"
    using b1(1) i1(1) i2(1)
    by (simp add: rotationGroup_def readSectorDataToBuffer_def copySectorDataInImage_def
        writeSectorDataFromBuffer_def startPos_nat pa_def pb_def)
  have "\<forall>i<length img. i2 ! i = img ! swapIdx pa pb i"
  proof (intro allI impI)
    fix i assume i: "i < length img"
    show "i2 ! i = img ! swapIdx pa pb i"
    proof (cases "pb \<le> i \<and> i < pb + 256")
      case True
      then have j: "i - pb < 256" and na: "\<not> (pa \<le> i \<and> i < pa + 256)" using disj by linarith+
      have "i2 ! i = b1 ! (i - pb)" using i2(3) i True by simp
      also have "\<dots> = img ! (pa + (i - pb))" using b1(3) j by simp
      also have "pa + (i - pb) = swapIdx pa pb i" using True na by (auto simp: swapIdx_def)
      finally show ?thesis .
    next
      case False
      then have "i2 ! i = i1 ! i" using i2(3) i by auto
      also have "\<dots> = img ! swapIdx pa pb i" using i1(3) i False by (auto simp: swapIdx_def)
      finally show ?thesis .
    qed
  qed
  with run b1(2) i2(2) show ?thesis unfolding pa_def pb_def by blast
qed

lemma reorderTrack_groups:
  "reorderTrack sectorBuffer diskImage track = do {
     (sectorBuffer, diskImage) \<leftarrow> rotationGroup sectorBuffer diskImage track 0x01 0x0E;
     (sectorBuffer, diskImage) \<leftarrow> rotationGroup sectorBuffer diskImage track 0x02 0x0D;
     (sectorBuffer, diskImage) \<leftarrow> rotationGroup sectorBuffer diskImage track 0x03 0x0C;
     (sectorBuffer, diskImage) \<leftarrow> rotationGroup sectorBuffer diskImage track 0x04 0x0B;
     (sectorBuffer, diskImage) \<leftarrow> rotationGroup sectorBuffer diskImage track 0x05 0x0A;
     (sectorBuffer, diskImage) \<leftarrow> rotationGroup sectorBuffer diskImage track 0x06 0x09;
     rotationGroup sectorBuffer diskImage track 0x07 0x08
   }"
  by (simp add: reorderTrack_def rotationGroup_def split: Option.bind_split)

lemma swapIdx_less: "pa + 256 \<le> n \<Longrightarrow> pb + 256 \<le> n \<Longrightarrow> i < n \<Longrightarrow> swapIdx pa pb i < n"
  by (auto simp: swapIdx_def)

lemma sixteen_cases:
  "c < 16 \<Longrightarrow> c = 0 \<or> c = 1 \<or> c = 2 \<or> c = 3 \<or> c = 4 \<or> c = 5 \<or> c = 6 \<or> c = 7 \<or>
     c = 8 \<or> c = 9 \<or> c = 10 \<or> c = 11 \<or> c = 12 \<or> c = 13 \<or> c = 14 \<or> c = (15::nat)"
  by arith

lemma swapIdx_sector:
  assumes "a < 16" "b < 16" "c < 16" "j < 256"
  shows "swapIdx (sectorPos t a) (sectorPos t b) (sectorPos t c + j) =
         sectorPos t (if c = a then b else if c = b then a else c) + j"
proof -
  have 1: "(256 * a \<le> 256 * c + j \<and> 256 * c + j < 256 * a + 256) = (c = a)" for a c :: nat
    using assms(4) by auto
  show ?thesis
    by (simp add: swapIdx_def sectorPos_def 1)
qed

lemma swapIdx_outside:
  assumes "a < 16" "b < 16" "i < 4096 * t \<or> 4096 * t + 4096 \<le> i"
  shows "swapIdx (sectorPos t a) (sectorPos t b) i = i"
  using assms by (auto simp: swapIdx_def sectorPos_def)

lemma trackIdx_sector:
  assumes "c < 16" and "j < 256"
  shows "trackIdx t (sectorPos t c + j) = sectorPos t (SectorOrderMapping c) + j"
  using sixteen_cases [OF assms(1)] assms(2)
  by (elim disjE) (simp_all add: trackIdx_def swapIdx_sector SectorOrderMapping_def)

lemma trackIdx_outside:
  "i < 4096 * t \<or> 4096 * t + 4096 \<le> i \<Longrightarrow> trackIdx t i = i"
  by (simp add: trackIdx_def swapIdx_outside)

lemma trackIdx_less:
  "4096 * t + 3840 \<le> n \<Longrightarrow> i < n \<Longrightarrow> trackIdx t i < n"
  unfolding trackIdx_def
  by (intro swapIdx_less) (simp_all add: sectorPos_def)

lemma rotationGroup_step:
  assumes "length buf = 256" "a \<noteq> b" "a < 16" "b < 16" "a \<noteq> 15" "b \<noteq> 15"
    and "4096 * t + 3840 \<le> length img"
    and "length img = n"
    and "\<forall>i<n. img ! i = img0 ! f i"
  shows "\<exists>buf' img'. rotationGroup buf img (int t) (int a) (int b) = Some (buf', img') \<and>
           length buf' = 256 \<and> length img' = n \<and>
           (\<forall>i<n. img' ! i = img0 ! f (swapIdx (sectorPos t a) (sectorPos t b) i))"
proof -
  have la: "sectorPos t a + 256 \<le> length img" and lb: "sectorPos t b + 256 \<le> length img"
    using assms(3-7) by (simp_all add: sectorPos_def)
  from rotationGroup_ok [OF assms(1,2) la lb]
  obtain buf' img' where r: "rotationGroup buf img (int t) (int a) (int b) = Some (buf', img')"
      "length buf' = 256" "length img' = length img"
      "\<forall>i<length img. img' ! i = img ! swapIdx (sectorPos t a) (sectorPos t b) i"
    by blast
  have "\<forall>i<n. img' ! i = img0 ! f (swapIdx (sectorPos t a) (sectorPos t b) i)"
  proof (intro allI impI)
    fix i assume i: "i < n"
    then have "swapIdx (sectorPos t a) (sectorPos t b) i < n"
      using la lb assms(8) by (intro swapIdx_less) simp_all
    then show "img' ! i = img0 ! f (swapIdx (sectorPos t a) (sectorPos t b) i)"
      using r(4) assms(8,9) i by simp
  qed
  with r(1,2,3) assms(8) show ?thesis by auto
qed

lemma reorderTrack_ok:
  assumes buf: "length buf = 256" and len: "4096 * t + 3840 \<le> length img"
  shows "\<exists>buf' img'. reorderTrack buf img (int t) = Some (buf', img') \<and>
           length buf' = 256 \<and> length img' = length img \<and>
           (\<forall>i<length img. img' ! i = img ! trackIdx t i)"
proof -
  define n where "n = length img"
  have n: "length img = n" by (simp add: n_def)
  have id: "\<forall>i<n. img ! i = img ! id i" by simp
  from rotationGroup_step [OF buf _ _ _ _ _ len n id, of 1 14]
  obtain b1 i1 where g1: "rotationGroup buf img (int t) 1 14 = Some (b1, i1)"
      "length b1 = 256" "length i1 = n"
      "\<forall>i<n. i1 ! i = img ! (swapIdx (sectorPos t 1) (sectorPos t 14) i)"
    by auto
  have l1: "4096 * t + 3840 \<le> length i1" using len g1(3) n by simp
  from rotationGroup_step [OF g1(2) _ _ _ _ _ l1 g1(3) g1(4), of 2 13]
  obtain b2 i2 where g2: "rotationGroup b1 i1 (int t) 2 13 = Some (b2, i2)"
      "length b2 = 256" "length i2 = n"
      "\<forall>i<n. i2 ! i = img ! (swapIdx (sectorPos t 1) (sectorPos t 14)
          (swapIdx (sectorPos t 2) (sectorPos t 13) i))"
    by auto
  have l2: "4096 * t + 3840 \<le> length i2" using len g2(3) n by simp
  from rotationGroup_step [OF g2(2) _ _ _ _ _ l2 g2(3) g2(4), of 3 12]
  obtain b3 i3 where g3: "rotationGroup b2 i2 (int t) 3 12 = Some (b3, i3)"
      "length b3 = 256" "length i3 = n"
      "\<forall>i<n. i3 ! i = img ! (swapIdx (sectorPos t 1) (sectorPos t 14)
          (swapIdx (sectorPos t 2) (sectorPos t 13)
          (swapIdx (sectorPos t 3) (sectorPos t 12) i)))"
    by auto
  have l3: "4096 * t + 3840 \<le> length i3" using len g3(3) n by simp
  from rotationGroup_step [OF g3(2) _ _ _ _ _ l3 g3(3) g3(4), of 4 11]
  obtain b4 i4 where g4: "rotationGroup b3 i3 (int t) 4 11 = Some (b4, i4)"
      "length b4 = 256" "length i4 = n"
      "\<forall>i<n. i4 ! i = img ! (swapIdx (sectorPos t 1) (sectorPos t 14)
          (swapIdx (sectorPos t 2) (sectorPos t 13)
          (swapIdx (sectorPos t 3) (sectorPos t 12)
          (swapIdx (sectorPos t 4) (sectorPos t 11) i))))"
    by auto
  have l4: "4096 * t + 3840 \<le> length i4" using len g4(3) n by simp
  from rotationGroup_step [OF g4(2) _ _ _ _ _ l4 g4(3) g4(4), of 5 10]
  obtain b5 i5 where g5: "rotationGroup b4 i4 (int t) 5 10 = Some (b5, i5)"
      "length b5 = 256" "length i5 = n"
      "\<forall>i<n. i5 ! i = img ! (swapIdx (sectorPos t 1) (sectorPos t 14)
          (swapIdx (sectorPos t 2) (sectorPos t 13)
          (swapIdx (sectorPos t 3) (sectorPos t 12)
          (swapIdx (sectorPos t 4) (sectorPos t 11)
          (swapIdx (sectorPos t 5) (sectorPos t 10) i)))))"
    by auto
  have l5: "4096 * t + 3840 \<le> length i5" using len g5(3) n by simp
  from rotationGroup_step [OF g5(2) _ _ _ _ _ l5 g5(3) g5(4), of 6 9]
  obtain b6 i6 where g6: "rotationGroup b5 i5 (int t) 6 9 = Some (b6, i6)"
      "length b6 = 256" "length i6 = n"
      "\<forall>i<n. i6 ! i = img ! (swapIdx (sectorPos t 1) (sectorPos t 14)
          (swapIdx (sectorPos t 2) (sectorPos t 13)
          (swapIdx (sectorPos t 3) (sectorPos t 12)
          (swapIdx (sectorPos t 4) (sectorPos t 11)
          (swapIdx (sectorPos t 5) (sectorPos t 10)
          (swapIdx (sectorPos t 6) (sectorPos t 9) i))))))"
    by auto
  have l6: "4096 * t + 3840 \<le> length i6" using len g6(3) n by simp
  from rotationGroup_step [OF g6(2) _ _ _ _ _ l6 g6(3) g6(4), of 7 8]
  obtain b7 i7 where g7: "rotationGroup b6 i6 (int t) 7 8 = Some (b7, i7)"
      "length b7 = 256" "length i7 = n"
      "\<forall>i<n. i7 ! i = img ! trackIdx t i"
    unfolding trackIdx_def by auto
  have "reorderTrack buf img (int t) = Some (b7, i7)"
    by (simp add: reorderTrack_groups g1(1) g2(1) g3(1) g4(1) g5(1) g6(1) g7(1))
  with g7(2,3,4) n show ?thesis by auto
qed

lemma swapIdx_in_track:
  assumes "a < 16" "b < 16" "4096 * t \<le> i" "i < 4096 * t + 4096"
  shows "4096 * t \<le> swapIdx (sectorPos t a) (sectorPos t b) i \<and>
         swapIdx (sectorPos t a) (sectorPos t b) i < 4096 * t + 4096"
proof -
  define pa pb where "pa = sectorPos t a" and "pb = sectorPos t b"
  have pa: "4096 * t \<le> pa" "pa + 256 \<le> 4096 * t + 4096"
    and pb: "4096 * t \<le> pb" "pb + 256 \<le> 4096 * t + 4096"
    using assms(1,2) by (simp_all add: pa_def pb_def sectorPos_def)
  consider "pa \<le> i \<and> i < pa + 256" | "\<not> (pa \<le> i \<and> i < pa + 256)" "pb \<le> i \<and> i < pb + 256"
    | "\<not> (pa \<le> i \<and> i < pa + 256)" "\<not> (pb \<le> i \<and> i < pb + 256)" by blast
  then have "4096 * t \<le> swapIdx pa pb i \<and> swapIdx pa pb i < 4096 * t + 4096"
  proof cases
    case 1
    then have "swapIdx pa pb i = pb + (i - pa)" by (simp add: swapIdx_def)
    then show ?thesis using 1 pb by linarith
  next
    case 2
    then have "swapIdx pa pb i = pa + (i - pb)" by (auto simp: swapIdx_def)
    then show ?thesis using 2 pa by linarith
  next
    case 3
    then have "swapIdx pa pb i = i" by (auto simp: swapIdx_def)
    then show ?thesis using assms(3,4) by simp
  qed
  then show ?thesis by (simp add: pa_def pb_def)
qed

lemma trackIdx_in_track:
  assumes "4096 * t \<le> i" "i < 4096 * t + 4096"
  shows "4096 * t \<le> trackIdx t i \<and> trackIdx t i < 4096 * t + 4096"
  unfolding trackIdx_def using assms
  by (intro swapIdx_in_track [THEN conjunct1] swapIdx_in_track [THEN conjunct2] conjI) simp_all

lemma sector_decompose:
  "i = sectorPos (i div 4096) (i mod 4096 div 256) + i mod 256"
proof -
  have "i mod 4096 mod 256 = i mod 256" by (intro mod_mod_cancel) simp
  moreover have "i mod 4096 = 256 * (i mod 4096 div 256) + i mod 4096 mod 256" by simp
  moreover have "i = 4096 * (i div 4096) + i mod 4096" by simp
  ultimately show ?thesis unfolding sectorPos_def by linarith
qed

lemma sector_bounds:
  "i < 4096 * 35 \<Longrightarrow> i div 4096 < 35 \<and> i mod 4096 div 256 < 16 \<and> i mod 256 < (256::nat)"
  by (simp add: less_mult_imp_div_less)

lemma sector_div: "c < 16 \<Longrightarrow> j < 256 \<Longrightarrow> (sectorPos t c + j) div 4096 = t"
  unfolding sectorPos_def by (intro div_nat_eqI) simp_all

lemma convertLoop_ok:
  assumes "k \<le> 35" "length buf = 256" "143104 \<le> length img"
  shows "\<exists>r. convertLoop buf img (int k) = Some r \<and> length r = length img \<and>
           (\<forall>i<length img. r ! i = img ! imageIdx k i)"
  using assms
proof (induction "35 - k" arbitrary: k buf img)
  case 0
  then have "k = 35" by simp
  then show ?case by (auto simp: convertLoop.simps imageIdx_def)
next
  case (Suc m)
  then have k: "k < 35" by simp
  have len: "4096 * k + 3840 \<le> length img" using k Suc.prems(3) by simp
  from reorderTrack_ok [OF Suc.prems(2) len]
  obtain b1 i1 where t: "reorderTrack buf img (int k) = Some (b1, i1)" "length b1 = 256"
      "length i1 = length img" "\<forall>i<length img. i1 ! i = img ! trackIdx k i"
    by blast
  have "\<exists>r. convertLoop b1 i1 (int (Suc k)) = Some r \<and> length r = length i1 \<and>
           (\<forall>i<length i1. r ! i = i1 ! imageIdx (Suc k) i)"
    using Suc.hyps(2) k t(2,3) Suc.prems(3) by (intro Suc.hyps(1)) simp_all
  then obtain r where r: "convertLoop b1 i1 (int (Suc k)) = Some r" "length r = length img"
      "\<forall>i<length img. r ! i = i1 ! imageIdx (Suc k) i"
    using t(3) by auto
  have "convertLoop buf img (int k) = convertLoop b1 i1 (int k + 1)"
    using k t(1) by (subst convertLoop.simps) simp
  then have run: "convertLoop buf img (int k) = Some r" using r(1) by (simp add: add.commute)
  have "\<forall>i<length img. r ! i = img ! imageIdx k i"
  proof (intro allI impI)
    fix i assume i: "i < length img"
    consider "i < 4096 * k \<or> 4096 * 35 \<le> i" | "4096 * k \<le> i" "i < 4096 * k + 4096"
      | "4096 * k + 4096 \<le> i" "i < 4096 * 35" by linarith
    then show "r ! i = img ! imageIdx k i"
    proof cases
      case 1
      then have "r ! i = i1 ! i" using r(3) i by (auto simp: imageIdx_def)
      also have "\<dots> = img ! trackIdx k i" using t(4) i by simp
      also have "trackIdx k i = i" using 1 k by (intro trackIdx_outside) linarith
      finally show ?thesis using 1 by (auto simp: imageIdx_def)
    next
      case 2
      then have d: "i div 4096 = k" by (intro div_nat_eqI) simp_all
      have "r ! i = i1 ! i" using r(3) i 2 by (simp add: imageIdx_def)
      also have "\<dots> = img ! trackIdx k i" using t(4) i by simp
      finally show ?thesis using 2 k d by (simp add: imageIdx_def)
    next
      case 3
      define T where "T = i div 4096"
      have "i = 4096 * T + i mod 4096" "i mod 4096 < 4096"
        unfolding T_def by simp_all
      then have T: "4096 * T \<le> i" "i < 4096 * T + 4096" "k < T" "T < 35"
        using 3 by linarith+
      have in_T: "4096 * T \<le> trackIdx T i \<and> trackIdx T i < 4096 * T + 4096"
        using T by (intro trackIdx_in_track)
      have lt: "trackIdx T i < length img"
        using T i Suc.prems(3) by (intro trackIdx_less) simp_all
      have "r ! i = i1 ! trackIdx T i" using r(3) i 3 by (simp add: imageIdx_def T_def)
      also have "\<dots> = img ! trackIdx k (trackIdx T i)" using t(4) lt by simp
      also have "trackIdx k (trackIdx T i) = trackIdx T i"
        using in_T T(3) by (intro trackIdx_outside) linarith
      finally show ?thesis using 3 by (simp add: imageIdx_def T_def)
    qed
  qed
  with run r(2) show ?case by blast
qed

lemma imageIdx_sector:
  assumes "t < 35" "c < 16" "j < 256"
  shows "imageIdx 0 (sectorPos t c + j) = sectorPos t (SectorOrderMapping c) + j"
proof -
  have "sectorPos t c + j < 4096 * 35" using assms by (simp add: sectorPos_def)
  then show ?thesis using assms by (simp add: imageIdx_def sector_div trackIdx_sector)
qed

lemma SectorOrderMapping_less: "c < 16 \<Longrightarrow> SectorOrderMapping c < 16"
  by (auto simp: SectorOrderMapping_def)

lemma SectorOrderMapping_involution: "c < 16 \<Longrightarrow> SectorOrderMapping (SectorOrderMapping c) = c"
  by (auto simp: SectorOrderMapping_def)

lemma imageIdx_involution: "imageIdx 0 (imageIdx 0 i) = i"
proof (cases "i < 4096 * 35")
  case True
  define t c j where "t = i div 4096" and "c = i mod 4096 div 256" and "j = i mod 256"
  have b: "t < 35" "c < 16" "j < 256"
    using sector_bounds [OF True] unfolding t_def c_def j_def by simp_all
  have i: "i = sectorPos t c + j" unfolding t_def c_def j_def by (rule sector_decompose)
  show ?thesis
    unfolding i using b
    by (simp add: imageIdx_sector SectorOrderMapping_less SectorOrderMapping_involution)
next
  case False
  then show ?thesis by (simp add: imageIdx_def)
qed

lemma imageIdx_less:
  assumes "143104 \<le> n" "i < n"
  shows "imageIdx 0 i < n"
proof (cases "i < 4096 * 35")
  case True
  then have "i div 4096 < 35" by (simp add: less_mult_imp_div_less)
  then have "4096 * (i div 4096) + 3840 \<le> n" using assms(1) by simp
  then have "trackIdx (i div 4096) i < n" using assms(2) by (rule trackIdx_less)
  then show ?thesis using True by (simp add: imageIdx_def)
next
  case False
  then show ?thesis using assms(2) by (simp add: imageIdx_def)
qed

lemma convert_ok:
  assumes "143104 \<le> length img"
  shows "\<exists>r. convertDiskImageFromProdosOrderToDos33Order img = Some r \<and> length r = length img \<and>
           (\<forall>i<length img. r ! i = img ! imageIdx 0 i)"
  using convertLoop_ok [of 0 "replicate 256 0" img] assms
  by (simp add: convertDiskImageFromProdosOrderToDos33Order_def)

lemma sectorBytes_reordered:
  assumes len: "143360 \<le> length img" and "length r = length img"
    and r: "\<forall>i<length img. r ! i = img ! imageIdx 0 i"
    and t: "t < 35" and c: "c < 16"
  shows "sectorBytes r (int t) (int c) = sectorBytes img (int t) (int (SectorOrderMapping c))"
proof -
  have c': "SectorOrderMapping c < 16" using c by (rule SectorOrderMapping_less)
  have b: "sectorPos t c + 256 \<le> length img" "sectorPos t (SectorOrderMapping c) + 256 \<le> length img"
    using len t c c' by (simp_all add: sectorPos_def)
  show ?thesis
  proof (rule nth_equalityI)
    show "length (sectorBytes r (int t) (int c)) = length (sectorBytes img (int t) (int (SectorOrderMapping c)))"
      using b assms(2) by (simp add: sectorBytes_def startPos_nat)
  next
    fix j assume "j < length (sectorBytes r (int t) (int c))"
    then have j: "j < 256" by (simp add: sectorBytes_def)
    have "sectorBytes r (int t) (int c) ! j = r ! (sectorPos t c + j)"
      using j b assms(2) by (simp add: sectorBytes_def startPos_nat)
    also have "\<dots> = img ! imageIdx 0 (sectorPos t c + j)"
      using r j b by simp
    also have "\<dots> = img ! (sectorPos t (SectorOrderMapping c) + j)"
      using t c j by (simp add: imageIdx_sector)
    also have "\<dots> = sectorBytes img (int t) (int (SectorOrderMapping c)) ! j"
      using j b by (simp add: sectorBytes_def startPos_nat)
    finally show "sectorBytes r (int t) (int c) ! j = sectorBytes img (int t) (int (SectorOrderMapping c)) ! j" .
  qed
qed

text \<open>
  Claim C10. Applying the reorder transform twice to an image of at least 143360 bytes
  returns the original image, byte for byte: the transform is an involution.
\<close>

theorem C10_reorder_twice_is_identity:
  assumes "143360 \<le> length diskImage"
  shows "Option.bind (convertDiskImageFromProdosOrderToDos33Order diskImage)
           convertDiskImageFromProdosOrderToDos33Order = Some diskImage"
proof -
  from convert_ok [of diskImage] assms
  obtain r where r: "convertDiskImageFromProdosOrderToDos33Order diskImage = Some r"
      "length r = length diskImage" "\<forall>i<length diskImage. r ! i = diskImage ! imageIdx 0 i"
    by auto
  from convert_ok [of r] assms r(2)
  obtain r2 where r2: "convertDiskImageFromProdosOrderToDos33Order r = Some r2"
      "length r2 = length diskImage" "\<forall>i<length diskImage. r2 ! i = r ! imageIdx 0 i"
    by auto
  have "r2 = diskImage"
  proof (rule nth_equalityI)
    show "length r2 = length diskImage" by (rule r2(2))
  next
    fix i assume "i < length r2"
    then have i: "i < length diskImage" using r2(2) by simp
    then have "imageIdx 0 i < length diskImage" using assms by (intro imageIdx_less) simp_all
    then have "r ! imageIdx 0 i = diskImage ! imageIdx 0 (imageIdx 0 i)" using r(3) by simp
    then show "r2 ! i = diskImage ! i" using r2(3) i by (simp add: imageIdx_involution)
  qed
  then show ?thesis using r(1) r2(1) by simp
qed

text \<open>The theorem at an image of 143360 zero bytes.\<close>

theorem C10_reorder_twice_witness:
  "143360 \<le> length (replicate 143360 (0::byte)) \<and>
   Option.bind (convertDiskImageFromProdosOrderToDos33Order (replicate 143360 0))
     convertDiskImageFromProdosOrderToDos33Order = Some (replicate 143360 0)"
proof -
  have h: "143360 \<le> length (replicate 143360 (0::byte))" by simp
  from C10_reorder_twice_is_identity [OF h] h show ?thesis by blast
qed

section \<open>Rendering of addresses and bytes\<close>

lemma hexDigit_props:
  assumes "d < 16"
  shows "hexDigit d \<in> hexAlphabet" and "hexDigitValue (hexDigit d) = d"
    and "hexDigit d \<noteq> CHR '' ''" and "hexDigit d \<noteq> CHR 0x0D" and "hexDigit d \<noteq> CHR 0x0A"
    and "d \<noteq> 0 \<Longrightarrow> hexDigit d \<noteq> CHR ''0''"
  using sixteen_cases [OF assms]
  by (auto simp: hexDigit_def hexAlphabet_def hexDigitValue_def)

lemma hexDigits_alphabet: "set (hexDigits n) \<subseteq> hexAlphabet"
proof (induction n rule: hexDigits.induct)
  case (1 n)
  show ?case
  proof (cases "n < 16")
    case True
    then show ?thesis by (subst hexDigits.simps) (simp add: hexDigit_props)
  next
    case False
    then show ?thesis using 1 by (subst hexDigits.simps) (simp add: hexDigit_props)
  qed
qed

lemma hexValue_snoc: "hexValue (s @ [c]) = 16 * hexValue s + hexDigitValue c"
  by (simp add: hexValue_def)

lemma hexDigits_value: "hexValue (hexDigits n) = n"
proof (induction n rule: hexDigits.induct)
  case (1 n)
  show ?case
  proof (cases "n < 16")
    case True
    then show ?thesis by (subst hexDigits.simps) (simp add: hexValue_def hexDigit_props)
  next
    case False
    then show ?thesis using 1
      by (subst hexDigits.simps) (simp add: hexValue_snoc hexDigit_props)
  qed
qed

lemma hexDigits_length: "length (hexDigits n) = (if n < 16 then 1 else Suc (length (hexDigits (n div 16))))"
  by (subst hexDigits.simps) simp

lemma hexDigits_nonempty: "hexDigits n \<noteq> []"
  by (subst hexDigits.simps) simp

lemma hexDigits_leading: "16 \<le> n \<Longrightarrow> hd (hexDigits n) \<noteq> CHR ''0''"
proof (induction n rule: hexDigits.induct)
  case (1 n)
  then have n: "\<not> n < 16" by simp
  show ?case
  proof (cases "n div 16 < 16")
    case True
    then have "hexDigits (n div 16) = [hexDigit (n div 16)]" by (subst hexDigits.simps) simp
    moreover have "n div 16 \<noteq> 0" using 1(2) by simp
    ultimately show ?thesis using n True
      by (subst hexDigits.simps) (simp add: hexDigit_props)
  next
    case False
    then have "hd (hexDigits (n div 16)) \<noteq> CHR ''0''" using 1(1) n by simp
    then show ?thesis using n hexDigits_nonempty [of "n div 16"]
      by (subst hexDigits.simps) simp
  qed
qed

lemma sprintf_02X_small: "v < 16 \<Longrightarrow> sprintf_02X v = [CHR ''0'', hexDigit v]"
  by (simp add: sprintf_02X_def hexDigits.simps [of v])

lemma sprintf_02X_large: "16 \<le> v \<Longrightarrow> sprintf_02X v = hexDigits v"
  using hexDigits_nonempty [of "v div 16"]
  by (cases "hexDigits (v div 16)") (simp_all add: sprintf_02X_def hexDigits.simps [of v])

lemma sprintf_02X_byte: "sprintf_02X (unat (b::byte)) = hexByte b"
proof (cases "unat b < 16")
  case True
  then show ?thesis by (simp add: sprintf_02X_small hexByte_def hexDigit_def)
next
  case False
  have "unat b < 256" using unsigned_less [of b] by simp
  then have "unat b div 16 < 16" by simp
  then show ?thesis using False
    by (simp add: sprintf_02X_large hexByte_def hexDigits.simps [of "unat b"]
        hexDigits.simps [of "unat b div 16"])
qed

lemma sprintf_02X_props:
  "set (sprintf_02X v) \<subseteq> hexAlphabet" "2 \<le> length (sprintf_02X v)" "hexValue (sprintf_02X v) = v"
  "2 < length (sprintf_02X v) \<Longrightarrow> hd (sprintf_02X v) \<noteq> CHR ''0''"
proof -
  show "set (sprintf_02X v) \<subseteq> hexAlphabet"
    using hexDigits_alphabet [of v] by (auto simp: sprintf_02X_def Let_def hexAlphabet_def)
  show "2 \<le> length (sprintf_02X v)"
    by (simp add: sprintf_02X_def Let_def)
  show "hexValue (sprintf_02X v) = v"
  proof (cases "v < 16")
    case True
    have "hexDigitValue (CHR ''0'') = 0" by (simp add: hexDigitValue_def)
    then show ?thesis using True by (simp add: sprintf_02X_small hexValue_def hexDigit_props)
  next
    case False
    then show ?thesis by (simp add: sprintf_02X_large hexDigits_value)
  qed
  show "hd (sprintf_02X v) \<noteq> CHR ''0''" if "2 < length (sprintf_02X v)"
  proof (cases "v < 16")
    case True
    then show ?thesis using that by (simp add: sprintf_02X_small)
  next
    case False
    then show ?thesis by (simp add: sprintf_02X_large hexDigits_leading)
  qed
qed

lemma byteWriteGroupLoop_eq:
  "n = i + length bs \<Longrightarrow>
   byteWriteGroupLoop n i bs sb = sb @ spaceSeparated (map hexByte bs)"
proof (induction bs arbitrary: i sb)
  case Nil
  then show ?case by simp
next
  case (Cons b bs)
  show ?case
  proof (cases bs)
    case Nil
    then show ?thesis using Cons.prems by (simp add: sprintf_02X_byte)
  next
    case (Cons b' bs')
    have "int i \<noteq> int n - 1" using Cons.prems Cons by simp
    moreover have "byteWriteGroupLoop n (Suc i) bs (sb @ hexByte b @ '' '') =
        (sb @ hexByte b @ '' '') @ spaceSeparated (map hexByte bs)"
      using Cons.prems by (intro Cons.IH) simp
    ultimately show ?thesis using Cons by (simp add: sprintf_02X_byte)
  qed
qed

lemma generateByteWriteGroupString_eq:
  "generateByteWriteGroupStringFromBytes bs = spaceSeparated (map hexByte bs)"
  by (simp add: generateByteWriteGroupStringFromBytes_def byteWriteGroupLoop_eq)

lemma hexByte_props:
  "length (hexByte b) = 2" "set (hexByte b) \<subseteq> hexAlphabet" "hexValue (hexByte b) = unat b"
proof -
  have "unat b < 256" using unsigned_less [of b] by simp
  then have d: "unat b div 16 < 16" "unat b mod 16 < 16" by simp_all
  show "length (hexByte b) = 2" by (simp add: hexByte_def)
  show "set (hexByte b) \<subseteq> hexAlphabet" using d by (simp add: hexByte_def hexDigit_props)
  show "hexValue (hexByte b) = unat b" using d by (simp add: hexByte_def hexValue_def hexDigit_props)
qed





section \<open>The Memory Segment Encoder and the two loops\<close>

lemma goInt_id: "- (2 ^ 63) \<le> x \<Longrightarrow> x < 2 ^ 63 \<Longrightarrow> goInt x = x"
  unfolding goInt_def by (rule signed_take_bit_int_eq_self)

lemma goInt_range: "- (2 ^ 63) \<le> goInt x \<and> goInt x < 2 ^ 63"
  unfolding goInt_def
  using signed_take_bit_int_greater_eq_minus_exp [of 63 x] signed_take_bit_int_less_exp [of 63 x]
  by simp

lemma fill_line:
  "writeCommandsToFillAppleMemorySegment src generateLineStartPad a start count =
     (case sliceBytes src start (min (goInt (start + count)) (int (length src))) of
        None \<Rightarrow> ([], Panicked SliceBoundsOutOfRange)
      | Some payload \<Rightarrow> ([commandLine a payload], Returned))"
  by (simp add: writeCommandsToFillAppleMemorySegment_def Let_def commandLine_def printfLine_def
      generateByteWriteGroupString_eq min_def not_less split: option.splits)

lemma fill_ok:
  assumes "0 \<le> start" "start \<le> int (length src)" "0 \<le> count" "start + count < 2 ^ 63"
  shows "writeCommandsToFillAppleMemorySegment src generateLineStartPad a start count =
           ([commandLine a (take (nat count) (drop (nat start) src))], Returned)"
proof -
  have g: "goInt (start + count) = start + count"
    using assms by (intro goInt_id) simp_all
  show ?thesis
  proof (cases "start + count \<le> int (length src)")
    case True
    then have "nat (start + count) - nat start = nat count" using assms by simp
    then show ?thesis using assms True by (simp add: fill_line g sliceBytes_def min_def)
  next
    case False
    then have "length src - nat start \<le> nat count" using assms by simp
    then show ?thesis using assms False by (simp add: fill_line g sliceBytes_def min_def)
  qed
qed

lemma fill_panics:
  assumes "start < 0 \<or> int (length src) < start \<or> goInt (start + count) < start"
  shows "writeCommandsToFillAppleMemorySegment src generateLineStartPad a start count =
           ([], Panicked SliceBoundsOutOfRange)"
  using assms by (auto simp: fill_line sliceBytes_def min_def)

lemma fill_past_the_end_example:
  "writeCommandsToFillAppleMemorySegment (replicate 143104 0) generateLineStartPad 0x2F08 0x22F08 8 =
     ([], Panicked SliceBoundsOutOfRange)"
  by (rule fill_panics) simp

lemma thenRun_Returned [simp]: "thenRun (ls, Returned) r = (ls @ fst r, snd r)"
  by (cases r) simp

lemma loadDiskTrackLoop_later:
  "loadDiskTrackLoop fuel src s pad cnt bw tg st False = loadClientLoop fuel src s pad cnt bw tg st"
  by (induction fuel arbitrary: bw tg st) simp_all

lemma loadClientLoop_unroll:
  assumes s: "0 < s" "s < 2 ^ 61" and cnt: "cnt < 2 ^ 61" and tg: "0 \<le> tg" "tg < 2 ^ 61"
    and st: "0 \<le> st" "st < 2 ^ 61"
    and guard: "\<forall>j<k + n. int j * s < cnt"
    and inside: "\<forall>j<k + n. st + int j * s \<le> int (length src)"
    and fuel: "n \<le> fuel"
  shows "loadClientLoop fuel src s generateLineStartPad cnt (int k * s) (tg + int k * s) (st + int k * s) =
         (segmentLines src s tg st k n @
            fst (loadClientLoop (fuel - n) src s generateLineStartPad cnt
                   (int (k + n) * s) (tg + int (k + n) * s) (st + int (k + n) * s)),
          snd (loadClientLoop (fuel - n) src s generateLineStartPad cnt
                   (int (k + n) * s) (tg + int (k + n) * s) (st + int (k + n) * s)))"
  using guard inside fuel
proof (induction n arbitrary: k fuel)
  case 0
  then show ?case by (simp add: segmentLines_def)
next
  case (Suc n)
  then obtain f where f: "fuel = Suc f" "n \<le> f" by (cases fuel) simp_all
  have k: "int k * s < cnt" "st + int k * s \<le> int (length src)"
    using Suc.prems(1,2) by simp_all
  have nn: "0 \<le> int k * s" using s(1) by simp
  have e: "int (Suc k) * s = int k * s + s" by (simp add: algebra_simps)
  define x where "x = int k * s"
  have x: "0 \<le> x" "x < cnt" using nn k(1) by (simp_all add: x_def)
  have "goInt (x + s) = x + s" "goInt (tg + x + s) = tg + x + s" "goInt (st + x + s) = st + x + s"
    using x s cnt tg st by (simp_all add: goInt_id)
  then have g: "goInt (int k * s + s) = int (Suc k) * s"
          "goInt (tg + int k * s + s) = tg + int (Suc k) * s"
          "goInt (st + int k * s + s) = st + int (Suc k) * s"
    unfolding x_def by (simp_all only: e add.assoc)
  have "writeCommandsToFillAppleMemorySegment src generateLineStartPad (tg + x) (st + x) s =
      ([commandLine (tg + x) (take (nat s) (drop (nat (st + x)) src))], Returned)"
    using k(2) x s cnt st by (intro fill_ok) (simp_all add: x_def)
  then have line: "writeCommandsToFillAppleMemorySegment src generateLineStartPad (tg + int k * s) (st + int k * s) s =
      ([commandLine (tg + int k * s) (take (nat s) (drop (nat (st + int k * s)) src))], Returned)"
    by (simp only: x_def)
  have IH: "loadClientLoop f src s generateLineStartPad cnt (int (Suc k) * s) (tg + int (Suc k) * s) (st + int (Suc k) * s) =
         (segmentLines src s tg st (Suc k) n @
            fst (loadClientLoop (f - n) src s generateLineStartPad cnt
                   (int (Suc k + n) * s) (tg + int (Suc k + n) * s) (st + int (Suc k + n) * s)),
          snd (loadClientLoop (f - n) src s generateLineStartPad cnt
                   (int (Suc k + n) * s) (tg + int (Suc k + n) * s) (st + int (Suc k + n) * s)))"
    using Suc.prems(1,2) f(2) by (intro Suc.IH) simp_all
  have seg: "segmentLines src s tg st k (Suc n) =
      commandLine (tg + int k * s) (take (nat s) (drop (nat (st + int k * s)) src)) #
      segmentLines src s tg st (Suc k) n"
  proof -
    have "[k..<k + Suc n] = k # [Suc k..<Suc k + n]" by (subst upt_rec) simp
    then show ?thesis by (simp only: segmentLines_def list.map)
  qed
  show ?case
    unfolding f(1) loadClientLoop.simps using k(1)
    by (simp only: if_True line g IH thenRun_Returned fst_conv snd_conv seg diff_Suc_Suc
        add_Suc_right add_Suc append_Cons append_Nil)
qed

lemma hexAlphabet_no_control:
  "CHR 0x0D \<notin> hexAlphabet" "CHR 0x0A \<notin> hexAlphabet" "CHR '' '' \<notin> hexAlphabet"
  by (simp_all add: hexAlphabet_def)

lemma spaceSeparated_chars:
  "set (spaceSeparated (map hexByte bs)) \<subseteq> insert (CHR '' '') hexAlphabet"
  using hexByte_props(2) by (induction bs rule: induct_list012) auto

lemma generateMemoryAddress_chars: "set (generateMemoryAddress a) \<subseteq> hexAlphabet"
  by (simp add: generateMemoryAddress_def sprintf_02X_props)

lemma commandLine_wellFormed: "wellFormedLine (commandLine a payload)"
proof -
  have 1: "CHR 0x0D \<notin> set (generateMemoryAddress a)" "CHR 0x0A \<notin> set (generateMemoryAddress a)"
    using generateMemoryAddress_chars [of a] hexAlphabet_no_control by auto
  have 2: "CHR 0x0D \<notin> set (spaceSeparated (map hexByte payload))"
          "CHR 0x0A \<notin> set (spaceSeparated (map hexByte payload))"
    using spaceSeparated_chars [of payload] hexAlphabet_no_control by auto
  show ?thesis
    using 1 2
    by (simp add: wellFormedLine_def commandLine_def generateLineStartPad_def
        LINE_START_PAD_LENGTH_def butlast_append)
qed

lemma orderly_basic [simp]: "orderly ([], Returned)" "orderly ([], OutOfFuel)"
  "orderly ([], Panicked SliceBoundsOutOfRange)" "orderly ([], Panicked IndexOutOfRange)"
  by (simp_all add: orderly_def)

lemma orderly_thenRun: "orderly a \<Longrightarrow> orderly b \<Longrightarrow> orderly (thenRun a b)"
  by (cases a; cases b; cases "snd a") (auto simp: orderly_def)

lemma orderly_fill:
  "orderly (writeCommandsToFillAppleMemorySegment src generateLineStartPad a start count)"
  by (simp add: fill_line orderly_def commandLine_wellFormed split: option.splits)

lemma orderly_rampUp: "orderly (rampUp src generateLineStartPad tg st s)"
  unfolding rampUp_def by (intro orderly_thenRun orderly_fill)

lemma orderly_loadClientLoop:
  "orderly (loadClientLoop fuel src s generateLineStartPad cnt bw tg st)"
  by (induction fuel arbitrary: bw tg st) (simp_all add: orderly_thenRun orderly_fill)

lemma orderly_loadDiskTrackLoop:
  "orderly (loadDiskTrackLoop fuel src s generateLineStartPad cnt bw tg st first)"
  by (induction fuel arbitrary: bw tg st first)
     (simp_all add: orderly_thenRun orderly_fill orderly_rampUp)

lemma orderly_client:
  "orderly (writeCommandsToLoadRWTSClientProgramToMemory fuel t s)"
  by (simp add: writeCommandsToLoadRWTSClientProgramToMemory_def Let_def orderly_loadClientLoop)

text \<open>
  Claim C9. Every line written to standard output by the Memory Segment Encoder (given
  the pad of \<open>generateLineStartPad\<close>, as each of its callers gives it), by the Track
  Loader Script Generator, by the Client Program Loader and by the Executor begins with
  the pad of 16 spaces and is terminated by exactly one carriage return, with no line
  feed; this holds for every input and every amount of fuel, hence also for the lines
  written before a panic and for every prefix of a run that does not end.
\<close>

theorem C9_every_line_padded_and_terminated:
  "(\<forall>sourceBytes targetStartAddress sourceBytesStartPos writeByteCount.
      \<forall>l\<in>set (fst (writeCommandsToFillAppleMemorySegment sourceBytes generateLineStartPad
                      targetStartAddress sourceBytesStartPos writeByteCount)). wellFormedLine l) \<and>
   (\<forall>fuel diskImage trackNum SEGMENT_SIZE.
      \<forall>l\<in>set (fst (writeCommandsToLoadDiskTrackToMemory fuel diskImage trackNum SEGMENT_SIZE)).
         wellFormedLine l) \<and>
   (\<forall>fuel trackNum SEGMENT_SIZE.
      \<forall>l\<in>set (fst (writeCommandsToLoadRWTSClientProgramToMemory fuel trackNum SEGMENT_SIZE)).
         wellFormedLine l) \<and>
   (\<forall>trackNum. \<forall>l\<in>set (fst (executeClient trackNum)). wellFormedLine l) \<and>
   length generateLineStartPad = 16 \<and> set generateLineStartPad = {CHR '' ''}"
proof -
  have 1: "\<forall>l\<in>set (fst (writeCommandsToFillAppleMemorySegment src generateLineStartPad a st c)).
      wellFormedLine l" for src a st c
    using orderly_fill [of src a st c] by (simp add: orderly_def)
  have 2: "\<forall>l\<in>set (fst (writeCommandsToLoadDiskTrackToMemory fuel img t s)). wellFormedLine l"
    for fuel img t s
    using orderly_loadDiskTrackLoop [of fuel img s "0x1000" 0 "0x2000" "diskImageStartPosOfTrackSector t 0" True]
    by (simp add: writeCommandsToLoadDiskTrackToMemory_def orderly_def)
  have 3: "\<forall>l\<in>set (fst (writeCommandsToLoadRWTSClientProgramToMemory fuel t s)). wellFormedLine l"
    for fuel t s
    using orderly_client [of fuel t s] by (simp add: orderly_def)
  have 4: "\<forall>l\<in>set (fst (executeClient t)). wellFormedLine l" for t
    by (simp add: executeClient_def wellFormedLine_def generateLineStartPad_def
        LINE_START_PAD_LENGTH_def butlast_append)
  have 5: "length generateLineStartPad = 16 \<and> set generateLineStartPad = {CHR '' ''}"
    by (simp add: generateLineStartPad_def LINE_START_PAD_LENGTH_def)
  from 1 2 3 4 5 show ?thesis by blast
qed

text \<open>The theorem at the line of the Executor and at an encoder call with one byte.\<close>

theorem C9_lines_witness:
  "fst (executeClient 5) = [generateLineStartPad @ ''C00G'' @ [CHR 0x0D]] \<and>
   wellFormedLine (generateLineStartPad @ ''C00G'' @ [CHR 0x0D]) \<and>
   fst (writeCommandsToFillAppleMemorySegment [0xAB] generateLineStartPad 0x2000 0 1) =
     [commandLine 0x2000 [0xAB]] \<and>
   wellFormedLine (commandLine 0x2000 [0xAB])"
proof -
  note c = C9_every_line_padded_and_terminated
  note c1 = c [THEN conjunct1, rule_format]
  note c4 = c [THEN conjunct2, THEN conjunct2, THEN conjunct2, THEN conjunct1, rule_format]
  have e: "fst (executeClient 5) = [generateLineStartPad @ ''C00G'' @ [CHR 0x0D]]"
    by (simp add: executeClient_def)
  have "writeCommandsToFillAppleMemorySegment [0xAB] generateLineStartPad 0x2000 0 1 =
     ([commandLine 0x2000 (take (nat 1) (drop (nat 0) [0xAB]))], Returned)"
    by (rule fill_ok) simp_all
  then have f: "fst (writeCommandsToFillAppleMemorySegment [0xAB] generateLineStartPad 0x2000 0 1) =
     [commandLine 0x2000 [0xAB]]"
    by simp
  have 1: "wellFormedLine (generateLineStartPad @ ''C00G'' @ [CHR 0x0D])"
    by (rule c4 [of _ 5]) (simp add: e)
  have 2: "wellFormedLine (commandLine 0x2000 [0xAB])"
    by (rule c1 [of _ "[0xAB]" "0x2000" 0 1]) (simp add: f)
  from e f 1 2 show ?thesis by (intro conjI)
qed

section \<open>The Track Loader Script Generator\<close>

lemma rampUp_ok:
  assumes "8 \<le> s" "s < 2 ^ 61" "0 \<le> st" "st < 2 ^ 61" "st \<le> int (length src)"
  shows "rampUp src generateLineStartPad tg st s = (rampLines src s tg st, Returned)"
proof -
  have g: "goInt (s - c) = s - c" if "0 \<le> c" "c \<le> 8" for c
    using that assms(1,2) by (simp add: goInt_id)
  have l: "writeCommandsToFillAppleMemorySegment src generateLineStartPad tg st (s - c) =
      ([commandLine tg (take (nat (s - 8) + nat (8 - c)) (drop (nat st) src))], Returned)"
    if "0 \<le> c" "c \<le> 8" for c
  proof -
    have "nat (s - c) = nat (s - 8) + nat (8 - c)" using that assms(1) by simp
    moreover have "writeCommandsToFillAppleMemorySegment src generateLineStartPad tg st (s - c) =
      ([commandLine tg (take (nat (s - c)) (drop (nat st) src))], Returned)"
      using that assms by (intro fill_ok) simp_all
    ultimately show ?thesis by simp
  qed
  have u: "[0..<9] = [0, 1, 2, 3, 4, 5, 6, 7, 8::nat]" by (simp add: upt_rec)
  show ?thesis
    unfolding rampUp_def rampLines_def u
    using l [of 8] l [of 7] l [of 6] l [of 5] l [of 4] l [of 3] l [of 2] l [of 1] l [of 0]
    by (simp add: g)
qed

lemma loadDiskTrackLoop_first:
  "loadDiskTrackLoop (Suc fuel) src s pad cnt bw tg st True =
     (if bw < cnt then thenRun (rampUp src pad tg st s) (loadClientLoop (Suc fuel) src s pad cnt bw tg st)
      else ([], Returned))"
  by (simp add: loadDiskTrackLoop_later)

lemma trackLoader_valid:
  assumes "0 \<le> t" "t \<le> 34"
  shows "writeCommandsToLoadDiskTrackToMemory (Suc fuel) img t s =
           thenRun (rampUp img generateLineStartPad 0x2000 (0x1000 * t) s)
             (loadClientLoop (Suc fuel) img s generateLineStartPad 0x1000 0 0x2000 (0x1000 * t))"
  using assms
  by (simp add: writeCommandsToLoadDiskTrackToMemory_def loadDiskTrackLoop_first
      diskImageStartPosOfTrackSector_def del: loadDiskTrackLoop.simps loadClientLoop.simps)

lemma segmentLines_payload:
  "segmentLines src s tg st k n =
     map (\<lambda>j. commandLine (tg + int j * s) (segmentPayload src s st j)) [k..<k + n]"
  by (simp add: segmentLines_def segmentPayload_def)

lemma loadClientLoop_exit:
  "0 < fuel \<Longrightarrow> cnt \<le> bw \<Longrightarrow> loadClientLoop fuel src s pad cnt bw tg st = ([], Returned)"
  by (cases fuel) simp_all

lemma loadClientLoop_panic:
  assumes "0 < fuel" "bw < cnt" "int (length src) < st"
  shows "loadClientLoop fuel src s generateLineStartPad cnt bw tg st = ([], Panicked SliceBoundsOutOfRange)"
  using assms by (cases fuel) (simp_all add: fill_panics)

lemma loadClientLoop_complete:
  assumes s: "0 < s" "s < 2 ^ 61" and cnt: "cnt < 2 ^ 61" and tg: "0 \<le> tg" "tg < 2 ^ 61"
    and st: "0 \<le> st" "st < 2 ^ 61"
    and guard: "\<forall>j<n. int j * s < cnt"
    and inside: "\<forall>j<n. st + int j * s \<le> int (length src)"
    and fin: "cnt \<le> int n * s"
    and fuel: "n < fuel"
  shows "loadClientLoop fuel src s generateLineStartPad cnt 0 tg st = (segmentLines src s tg st 0 n, Returned)"
proof -
  have "loadClientLoop fuel src s generateLineStartPad cnt (int 0 * s) (tg + int 0 * s) (st + int 0 * s) =
         (segmentLines src s tg st 0 n @
            fst (loadClientLoop (fuel - n) src s generateLineStartPad cnt
                   (int (0 + n) * s) (tg + int (0 + n) * s) (st + int (0 + n) * s)),
          snd (loadClientLoop (fuel - n) src s generateLineStartPad cnt
                   (int (0 + n) * s) (tg + int (0 + n) * s) (st + int (0 + n) * s)))"
    using guard inside fuel by (intro loadClientLoop_unroll s cnt tg st) simp_all
  moreover have "loadClientLoop (fuel - n) src s generateLineStartPad cnt
                   (int (0 + n) * s) (tg + int (0 + n) * s) (st + int (0 + n) * s) = ([], Returned)"
    using fuel fin by (intro loadClientLoop_exit) simp_all
  ultimately show ?thesis by simp
qed

lemma segments_of_divisor:
  assumes "0 < s" "s dvd c" "0 \<le> c"
  shows "int (nat (c div s)) * s = c" and "\<forall>j<nat (c div s). int j * s + s \<le> c"
proof -
  have q: "0 \<le> c div s" using assms by (simp add: pos_imp_zdiv_nonneg_iff)
  show e: "int (nat (c div s)) * s = c" using assms q by simp
  show "\<forall>j<nat (c div s). int j * s + s \<le> c"
  proof (intro allI impI)
    fix j assume "j < nat (c div s)"
    then have "int j + 1 \<le> int (nat (c div s))" using q by linarith
    then have "(int j + 1) * s \<le> int (nat (c div s)) * s"
      using assms(1) by (intro mult_right_mono) simp_all
    then show "int j * s + s \<le> c" unfolding e by (simp add: algebra_simps)
  qed
qed

lemma trackLoader_run:
  assumes t: "0 \<le> t" "t \<le> 34" and s: "8 \<le> s" "s dvd 0x1000"
    and len: "0x1000 * t + 0x1000 \<le> int (length img) + s"
    and fuel: "nat (0x1000 div s) < fuel"
  shows "writeCommandsToLoadDiskTrackToMemory fuel img t s =
           (rampLines img s 0x2000 (0x1000 * t) @
            segmentLines img s 0x2000 (0x1000 * t) 0 (nat (0x1000 div s)), Returned)"
proof -
  obtain f where f: "fuel = Suc f" using fuel by (cases fuel) simp_all
  have s4: "s \<le> 0x1000" using s by (intro zdvd_imp_le) simp_all
  have s0: "0 < s" using s(1) by simp
  note d = segments_of_divisor [OF s0 s(2), simplified]
  have base: "0x1000 * t \<le> int (length img)" using len s4 by linarith
  have ramp: "rampUp img generateLineStartPad 0x2000 (0x1000 * t) s = (rampLines img s 0x2000 (0x1000 * t), Returned)"
    using t s(1) s4 base by (intro rampUp_ok) simp_all
  have main: "loadClientLoop fuel img s generateLineStartPad 0x1000 0 0x2000 (0x1000 * t) =
      (segmentLines img s 0x2000 (0x1000 * t) 0 (nat (0x1000 div s)), Returned)"
  proof (rule loadClientLoop_complete)
    show "\<forall>j<nat (0x1000 div s). int j * s < 0x1000" using d(2) s0 by fastforce
    show "\<forall>j<nat (0x1000 div s). 0x1000 * t + int j * s \<le> int (length img)"
      using d(2) len by fastforce
    show "0x1000 \<le> int (nat (0x1000 div s)) * s" using d(1) by simp
  qed (use t s0 s4 fuel in simp_all)
  show ?thesis
    unfolding f trackLoader_valid [OF t] ramp using main [unfolded f] by simp
qed

lemma segmentPayload_concat:
  assumes "0 \<le> st" "0 \<le> s"
  shows "concat (map (segmentPayload src s st) [0..<n]) = take (n * nat s) (drop (nat st) src)"
proof (induction n)
  case 0
  then show ?case by simp
next
  case (Suc n)
  have "nat (st + int n * s) = nat st + n * nat s"
    using assms by (simp add: nat_add_distrib nat_mult_distrib)
  then have p: "segmentPayload src s st n = take (nat s) (drop (n * nat s) (drop (nat st) src))"
    by (simp add: segmentPayload_def add.commute)
  have "take (Suc n * nat s) (drop (nat st) src) =
        take (n * nat s + nat s) (drop (nat st) src)" by (simp add: add.commute)
  also have "\<dots> = take (n * nat s) (drop (nat st) src) @
        take (nat s) (drop (n * nat s) (drop (nat st) src))" by (rule take_add)
  finally show ?case using Suc p by simp
qed

lemma segmentPayload_length:
  assumes "0 \<le> st" "0 \<le> s" "st + int j * s + s \<le> int (length src)"
  shows "length (segmentPayload src s st j) = nat s"
proof -
  define x where "x = int j * s"
  have "0 \<le> x" using assms(2) by (simp add: x_def)
  then have "nat s \<le> length src - nat (st + x)" using assms unfolding x_def [symmetric] by linarith
  then show ?thesis by (simp add: segmentPayload_def x_def)
qed

lemma rampLines_length: "length (rampLines src s tg st) = 9"
  by (simp add: rampLines_def)



lemma loadClientLoop_terminates:
  assumes "0 < s" "s < 2 ^ 61" "cnt < 2 ^ 61"
  shows "0 \<le> bw \<Longrightarrow> nat (cnt - bw) < fuel \<Longrightarrow>
         snd (loadClientLoop fuel src s generateLineStartPad cnt bw tg st) \<noteq> OutOfFuel"
proof (induction fuel arbitrary: bw tg st)
  case 0
  then show ?case by simp
next
  case (Suc fuel)
  show ?case
  proof (cases "bw < cnt")
    case False
    then show ?thesis by simp
  next
    case True
    have g: "goInt (bw + s) = bw + s" using True Suc.prems(1) assms by (simp add: goInt_id)
    have IH: "snd (loadClientLoop fuel src s generateLineStartPad cnt (bw + s) tg' st') \<noteq> OutOfFuel"
      for tg' st'
      using True Suc.prems assms(1) by (intro Suc.IH) simp_all
    show ?thesis
      using True IH
      by (simp add: fill_line g split: option.splits)
  qed
qed

section \<open>The range check of the Track Loader Script Generator\<close>







lemma trackLoader_short_image_example:
  "writeCommandsToLoadDiskTrackToMemory 4097 (replicate 143104 0) 34 8 =
     (rampLines (replicate 143104 0) 8 0x2000 (0x1000 * 34) @
      segmentLines (replicate 143104 0) 8 0x2000 (0x1000 * 34) 0 481,
      Panicked SliceBoundsOutOfRange)"
proof -
  let ?img = "replicate 143104 (0::byte)"
  have f: "(4097::nat) = Suc 4096" by simp
  have ramp: "rampUp ?img generateLineStartPad 0x2000 (0x1000 * 34) 8 =
      (rampLines ?img 8 0x2000 (0x1000 * 34), Returned)"
    by (rule rampUp_ok) simp_all
  have "loadClientLoop 4097 ?img 8 generateLineStartPad 0x1000 (int 0 * 8) (0x2000 + int 0 * 8) (0x1000 * 34 + int 0 * 8) =
         (segmentLines ?img 8 0x2000 (0x1000 * 34) 0 481 @
            fst (loadClientLoop (4097 - 481) ?img 8 generateLineStartPad 0x1000
                   (int (0 + 481) * 8) (0x2000 + int (0 + 481) * 8) (0x1000 * 34 + int (0 + 481) * 8)),
          snd (loadClientLoop (4097 - 481) ?img 8 generateLineStartPad 0x1000
                   (int (0 + 481) * 8) (0x2000 + int (0 + 481) * 8) (0x1000 * 34 + int (0 + 481) * 8)))"
    by (rule loadClientLoop_unroll) simp_all
  moreover have "loadClientLoop (4097 - 481) ?img 8 generateLineStartPad 0x1000
                   (int (0 + 481) * 8) (0x2000 + int (0 + 481) * 8) (0x1000 * 34 + int (0 + 481) * 8) =
      ([], Panicked SliceBoundsOutOfRange)"
    by (rule loadClientLoop_panic) simp_all
  ultimately have main: "loadClientLoop (Suc 4096) ?img 8 generateLineStartPad 0x1000 0 0x2000 (0x1000 * 34) =
      (segmentLines ?img 8 0x2000 (0x1000 * 34) 0 481, Panicked SliceBoundsOutOfRange)"
    by (simp del: loadClientLoop.simps)
  have "writeCommandsToLoadDiskTrackToMemory (Suc 4096) ?img 34 8 =
      thenRun (rampUp ?img generateLineStartPad 0x2000 (0x1000 * 34) 8)
        (loadClientLoop (Suc 4096) ?img 8 generateLineStartPad 0x1000 0 0x2000 (0x1000 * 34))"
    by (rule trackLoader_valid) simp_all
  then show ?thesis unfolding f ramp main by simp
qed




lemma convert_zero_image:
  "convertDiskImageFromProdosOrderToDos33Order (replicate 143104 0) = Some (replicate 143104 0)"
proof -
  let ?img = "replicate 143104 (0::byte)"
  from convert_ok [of ?img]
  obtain r where r: "convertDiskImageFromProdosOrderToDos33Order ?img = Some r"
      "length r = 143104" "\<forall>i<143104. r ! i = ?img ! imageIdx 0 i"
    by auto
  have "r = ?img"
  proof (rule nth_equalityI)
    show "length r = length ?img" using r(2) by simp
  next
    fix i assume "i < length r"
    then have i: "i < 143104" using r(2) by simp
    then have "imageIdx 0 i < 143104" by (intro imageIdx_less) simp_all
    then show "r ! i = ?img ! i" using r(3) i by simp
  qed
  with r(1) show ?thesis by simp
qed

text \<open>
  Claim C5 fails on the code where the start offset lies beyond the end of the source:
  only the end of the range is clamped, and the slice expression panics. The call below
  is the one the Track Loader Script Generator makes for segment 481 of track 34 on an
  image of 143104 bytes, which the reorder pass accepts: the whole program, run on that
  image and track, ends in this panic.
\<close>

theorem C5_encoder_panics_past_the_end:
  "0x22F08 + 8 > int (length (replicate 143104 (0::byte))) \<and>
   writeCommandsToFillAppleMemorySegment (replicate 143104 0) generateLineStartPad 0x2F08 0x22F08 8 =
     ([], Panicked SliceBoundsOutOfRange) \<and>
   snd (main 4097 (replicate 143104 0) 34) = Panicked SliceBoundsOutOfRange"
  by (simp add: fill_past_the_end_example main_def convert_zero_image trackLoader_short_image_example)

section \<open>The Client Program Loader\<close>

lemma trackNumArray_eq: "trackNumArray = map of_nat [0..<35]"
  by (simp add: trackNumArray_def upt_rec)

lemma trackNumArray_length: "length trackNumArray = 35"
  by (simp add: trackNumArray_def)

lemma trackNumArray_nth:
  assumes "0 \<le> t" "t \<le> 34"
  shows "trackNumArray ! nat t = (word_of_int t :: byte)"
proof -
  have "nat t < 35" using assms by simp
  then have "trackNumArray ! nat t = (of_nat (nat t) :: byte)"
    unfolding trackNumArray_eq by (subst nth_map) simp_all
  also have "\<dots> = of_int (int (nat t))" by (simp only: of_int_of_nat_eq)
  also have "int (nat t) = t" using assms(1) by simp
  finally show ?thesis .
qed

lemma clientProgram_props:
  "length (clientProgram b) = 52" "clientProgram b ! 32 = b"
  "clientProgram b = (clientProgram 0)[32 := b]"
  by (simp_all add: clientProgram_def eval_nat_numeral)

lemma track_byte_value:
  assumes "0 \<le> t" "t \<le> 34"
  shows "uint (word_of_int t :: byte) = t"
  using assms by (simp add: uint_word_of_int take_bit_int_eq_self)

lemma client_segments:
  assumes "0 < s"
  shows "\<forall>j<nat (51 div s) + 1. int j * s < 52" and "52 \<le> int (nat (51 div s) + 1) * s"
proof -
  define q where "q = 51 div s"
  have q: "0 \<le> q" using assms by (simp add: q_def pos_imp_zdiv_nonneg_iff)
  have e: "q * s + 51 mod s = 51" unfolding q_def by simp
  have m: "0 \<le> 51 mod s" "51 mod s < s" using assms by simp_all
  show "\<forall>j<nat (51 div s) + 1. int j * s < 52"
  proof (intro allI impI)
    fix j assume "j < nat (51 div s) + 1"
    then have "int j \<le> q" using q unfolding q_def by linarith
    then have "int j * s \<le> q * s" using assms by (intro mult_right_mono) simp_all
    then show "int j * s < 52" using e m by linarith
  qed
  have "int (nat (51 div s) + 1) * s = q * s + s" using q by (simp add: q_def algebra_simps)
  then show "52 \<le> int (nat (51 div s) + 1) * s" using e m by linarith
qed

lemma clientLoader_run:
  assumes t: "0 \<le> t" "t \<le> 34" and s: "0 < s" "s < 2 ^ 61" and fuel: "nat (51 div s) + 1 < fuel"
  shows "writeCommandsToLoadRWTSClientProgramToMemory fuel t s =
           (segmentLines (clientProgram (word_of_int t)) s 0x0C00 0 0 (nat (51 div s) + 1), Returned)"
proof -
  let ?prog = "clientProgram (word_of_int t)"
  note c = client_segments [OF s(1)]
  have "loadClientLoop fuel ?prog s generateLineStartPad 52 0 0x0C00 0 =
      (segmentLines ?prog s 0x0C00 0 0 (nat (51 div s) + 1), Returned)"
  proof (rule loadClientLoop_complete)
    show "\<forall>j<nat (51 div s) + 1. int j * s < 52" by (rule c(1))
    show "\<forall>j<nat (51 div s) + 1. 0 + int j * s \<le> int (length ?prog)"
      using c(1) by (simp add: clientProgram_props(1) less_imp_le)
    show "52 \<le> int (nat (51 div s) + 1) * s" by (rule c(2))
  qed (use s fuel in simp_all)
  then show ?thesis
    using t
    by (simp add: writeCommandsToLoadRWTSClientProgramToMemory_def Let_def trackNumArray_nth
        clientProgram_props(1) trackNumArray_length del: loadClientLoop.simps)
qed

section \<open>Reading command lines back\<close>

lemma hexByte_decode: "of_nat (hexValue (hexByte b)) = b"
  by (simp add: hexByte_props(3))

lemma decodeBytes_spaceSeparated: "decodeBytes (spaceSeparated (map hexByte bs)) = bs"
proof (induction bs rule: induct_list012)
  case 1
  then show ?case by simp
next
  case (2 b)
  have "decodeBytes (hexByte b) = [of_nat (hexValue (hexByte b))]" by (simp add: hexByte_def)
  then show ?case by (simp add: hexByte_decode)
next
  case (3 b b' bs)
  have "decodeBytes (hexByte b @ '' '' @ spaceSeparated (map hexByte (b' # bs))) =
      of_nat (hexValue (hexByte b)) # decodeBytes (spaceSeparated (map hexByte (b' # bs)))"
    by (simp add: hexByte_def)
  then show ?case using 3 by (simp add: hexByte_decode)
qed

lemma hexAlphabet_no_colon: "CHR '':'' \<notin> hexAlphabet"
  by (simp add: hexAlphabet_def)

lemma commandLine_parts:
  "drop 16 (commandLine a bs) =
     generateMemoryAddress a @ CHR '':'' # spaceSeparated (map hexByte bs) @ [CHR 0x0D]"
  by (simp add: commandLine_def generateLineStartPad_def LINE_START_PAD_LENGTH_def)

lemma lineAddress_commandLine: "0 \<le> a \<Longrightarrow> lineAddress (commandLine a bs) = nat a"
proof -
  assume a: "0 \<le> a"
  have "\<forall>c\<in>set (generateMemoryAddress a). c \<noteq> CHR '':''"
    using generateMemoryAddress_chars [of a] hexAlphabet_no_colon by auto
  then have "takeWhile (\<lambda>c. c \<noteq> CHR '':'') (drop 16 (commandLine a bs)) = generateMemoryAddress a"
    unfolding commandLine_parts by (simp add: takeWhile_append2)
  then show ?thesis using a by (simp add: lineAddress_def generateMemoryAddress_def sprintf_02X_props(3))
qed

lemma linePayload_commandLine: "linePayload (commandLine a bs) = bs"
proof -
  have 1: "\<forall>c\<in>set (generateMemoryAddress a). c \<noteq> CHR '':''"
    using generateMemoryAddress_chars [of a] hexAlphabet_no_colon by auto
  have 2: "\<forall>c\<in>set (spaceSeparated (map hexByte bs)). c \<noteq> CHR 0x0D"
    using spaceSeparated_chars [of bs] hexAlphabet_no_control by auto
  have "dropWhile (\<lambda>c. c \<noteq> CHR '':'') (drop 16 (commandLine a bs)) =
      CHR '':'' # spaceSeparated (map hexByte bs) @ [CHR 0x0D]"
    unfolding commandLine_parts using 1 by (simp add: dropWhile_append2)
  then have "takeWhile (\<lambda>c. c \<noteq> CHR 0x0D) (drop 1 (dropWhile (\<lambda>c. c \<noteq> CHR '':'') (drop 16 (commandLine a bs)))) =
      spaceSeparated (map hexByte bs)"
    using 2 by (simp add: takeWhile_append2)
  then show ?thesis by (simp add: linePayload_def decodeBytes_spaceSeparated)
qed

lemma exampleImage_length: "length exampleImage = 143360"
  by (simp add: exampleImage_def)

lemma exampleImage_nth: "i < 143360 \<Longrightarrow> exampleImage ! i = of_nat (i div 256 + i)"
  by (simp add: exampleImage_def)

section \<open>The sector exchange in the layout of the specification\<close>

lemma ball_seven_pairs:
  "P 1 14 \<Longrightarrow> P 2 13 \<Longrightarrow> P 3 12 \<Longrightarrow> P 4 11 \<Longrightarrow> P 5 10 \<Longrightarrow> P 6 9 \<Longrightarrow> P 7 8 \<Longrightarrow>
   \<forall>(a, b)\<in>{(1::nat, 14::nat), (2, 13), (3, 12), (4, 11), (5, 10), (6, 9), (7, 8)}. P a b"
  by simp

lemma sectorAt_sectorBytes: "sectorAt img t c = sectorBytes img (int t) (int c)"
proof -
  have "nat (diskImageStartPosOfTrackSector (int t) (int c)) = 4096 * t + 256 * c"
    by (simp add: startPos_nat sectorPos_def)
  then show ?thesis by (simp add: sectorAt_def sectorBytes_def)
qed

text \<open>
  Claim C1. On an image that holds the full sector data of tracks 0 to 34 (143360 bytes),
  one application of the reorder transform returns an image of the same length in
  which, for every track \<open>t\<close> in \<open>[0,34]\<close> and every pair \<open>(a,b)\<close> among (1,14), (2,13),
  (3,12), (4,11), (5,10), (6,9), (7,8), the 256 bytes at sector \<open>a\<close> of track \<open>t\<close> (offset
  \<open>0x1000 * t + 0x100 * a\<close>) are the original bytes of sector \<open>b\<close> of that track and the
  256 bytes at sector \<open>b\<close> the original bytes of sector \<open>a\<close>, while sectors 0 and 15
  hold their original bytes.
\<close>

theorem C1_reorder_exchanges_sector_pairs:
  assumes "143360 \<le> length diskImage"
  shows "\<exists>reordered. convertDiskImageFromProdosOrderToDos33Order diskImage = Some reordered \<and>
           length reordered = length diskImage \<and>
           (\<forall>t\<in>{0..34}.
              (\<forall>(a, b)\<in>{(1, 14), (2, 13), (3, 12), (4, 11), (5, 10), (6, 9), (7, 8)}.
                 sectorAt reordered t a = sectorAt diskImage t b \<and>
                 sectorAt reordered t b = sectorAt diskImage t a \<and>
                 length (sectorAt reordered t a) = 256 \<and> length (sectorAt reordered t b) = 256) \<and>
              sectorAt reordered t 0 = sectorAt diskImage t 0 \<and>
              sectorAt reordered t 15 = sectorAt diskImage t 15)"
proof -
  from convert_ok [of diskImage] assms
  obtain r where r: "convertDiskImageFromProdosOrderToDos33Order diskImage = Some r"
      "length r = length diskImage" "\<forall>i<length diskImage. r ! i = diskImage ! imageIdx 0 i"
    by auto
  have s: "sectorAt r t c = sectorAt diskImage t (SectorOrderMapping c)"
    if "t < 35" "c < 16" for t c
    unfolding sectorAt_sectorBytes using assms r(2,3) that by (rule sectorBytes_reordered)
  have l: "length (sectorAt r t c) = 256" "length (sectorAt diskImage t c) = 256"
    if "t < 35" "c < 16" for t c
    using that assms r(2) by (simp_all add: sectorAt_def)
  have B: "\<forall>t\<in>{0..34}.
              (\<forall>(a, b)\<in>{(1, 14), (2, 13), (3, 12), (4, 11), (5, 10), (6, 9), (7, 8)}.
                 sectorAt r t a = sectorAt diskImage t b \<and>
                 sectorAt r t b = sectorAt diskImage t a \<and>
                 length (sectorAt r t a) = 256 \<and> length (sectorAt r t b) = 256) \<and>
              sectorAt r t 0 = sectorAt diskImage t 0 \<and>
              sectorAt r t 15 = sectorAt diskImage t 15"
  proof (intro ballI)
    fix t :: nat assume that: "t \<in> {0..34}"
    have t: "t < 35" using that by simp
    have P: "sectorAt r t a = sectorAt diskImage t b \<and>
             sectorAt r t b = sectorAt diskImage t a \<and>
             length (sectorAt r t a) = 256 \<and> length (sectorAt r t b) = 256"
      if "1 \<le> a" "a \<le> 14" "b = 15 - a" for a b
    proof -
      have "a < 16" "b < 16" "SectorOrderMapping a = b" "SectorOrderMapping b = a"
        using that by (auto simp: SectorOrderMapping_def)
      then show ?thesis using s [OF t, of a] s [OF t, of b] l(1) [OF t, of a] l(1) [OF t, of b]
        by (simp only:)
    qed
    have Q: "sectorAt r t 0 = sectorAt diskImage t 0" "sectorAt r t 15 = sectorAt diskImage t 15"
      using s [OF t, of 0] s [OF t, of 15] by (simp_all add: SectorOrderMapping_def)
    have p1: "(1::nat) \<le> 1" "(1::nat) \<le> 14" "(14::nat) = 15 - 1" by simp_all
    have p2: "(1::nat) \<le> 2" "(2::nat) \<le> 14" "(13::nat) = 15 - 2" by simp_all
    have p3: "(1::nat) \<le> 3" "(3::nat) \<le> 14" "(12::nat) = 15 - 3" by simp_all
    have p4: "(1::nat) \<le> 4" "(4::nat) \<le> 14" "(11::nat) = 15 - 4" by simp_all
    have p5: "(1::nat) \<le> 5" "(5::nat) \<le> 14" "(10::nat) = 15 - 5" by simp_all
    have p6: "(1::nat) \<le> 6" "(6::nat) \<le> 14" "(9::nat) = 15 - 6" by simp_all
    have p7: "(1::nat) \<le> 7" "(7::nat) \<le> 14" "(8::nat) = 15 - 7" by simp_all
    have "\<forall>(a, b)\<in>{(1, 14), (2, 13), (3, 12), (4, 11), (5, 10), (6, 9), (7, 8)}.
                 sectorAt r t a = sectorAt diskImage t b \<and>
                 sectorAt r t b = sectorAt diskImage t a \<and>
                 length (sectorAt r t a) = 256 \<and> length (sectorAt r t b) = 256"
      by (rule ball_seven_pairs) (rule P [OF p1] P [OF p2] P [OF p3] P [OF p4] P [OF p5] P [OF p6] P [OF p7])+
    with Q show "(\<forall>(a, b)\<in>{(1, 14), (2, 13), (3, 12), (4, 11), (5, 10), (6, 9), (7, 8)}.
                 sectorAt r t a = sectorAt diskImage t b \<and>
                 sectorAt r t b = sectorAt diskImage t a \<and>
                 length (sectorAt r t a) = 256 \<and> length (sectorAt r t b) = 256) \<and>
              sectorAt r t 0 = sectorAt diskImage t 0 \<and>
              sectorAt r t 15 = sectorAt diskImage t 15" by (intro conjI)
  qed
  from r(1,2) B show ?thesis by (intro exI conjI)
qed

text \<open>
  The theorem at the example image, for track 3: sector 1 of the reordered image begins
  with the byte 62 of the original sector 14, where the original sector 1 begins with
  49.
\<close>

theorem C1_reorder_witness:
  "143360 \<le> length exampleImage \<and>
   (\<exists>reordered. convertDiskImageFromProdosOrderToDos33Order exampleImage = Some reordered \<and>
      sectorAt reordered 3 1 = sectorAt exampleImage 3 14 \<and>
      sectorAt reordered 3 14 = sectorAt exampleImage 3 1 \<and>
      sectorAt reordered 3 0 = sectorAt exampleImage 3 0 \<and>
      sectorAt reordered 3 1 ! 0 = 62 \<and>
      sectorAt exampleImage 3 1 ! 0 = 49)"
proof -
  have h: "143360 \<le> length exampleImage" by (simp add: exampleImage_length)
  from C1_reorder_exchanges_sector_pairs [OF h]
  obtain r where c: "convertDiskImageFromProdosOrderToDos33Order exampleImage = Some r"
    and p: "\<forall>t\<in>{0..34}.
              (\<forall>(a, b)\<in>{(1, 14), (2, 13), (3, 12), (4, 11), (5, 10), (6, 9), (7, 8)}.
                 sectorAt r t a = sectorAt exampleImage t b \<and>
                 sectorAt r t b = sectorAt exampleImage t a \<and>
                 length (sectorAt r t a) = 256 \<and> length (sectorAt r t b) = 256) \<and>
              sectorAt r t 0 = sectorAt exampleImage t 0 \<and>
              sectorAt r t 15 = sectorAt exampleImage t 15"
    by (elim exE conjE)
  have "(3::nat) \<in> {0..34}" by simp
  from p [THEN bspec, OF this]
  have r: "sectorAt r 3 1 = sectorAt exampleImage 3 14" "sectorAt r 3 14 = sectorAt exampleImage 3 1"
      "sectorAt r 3 0 = sectorAt exampleImage 3 0"
    by simp_all
  have a: "sectorAt exampleImage 3 14 ! 0 = 62"
    by (simp add: sectorAt_def exampleImage_length exampleImage_nth)
  have b: "sectorAt exampleImage 3 1 ! 0 = 49"
    by (simp add: sectorAt_def exampleImage_length exampleImage_nth)
  have d: "sectorAt r 3 1 ! 0 = 62" by (simp only: r(1) a)
  from c r d b have "convertDiskImageFromProdosOrderToDos33Order exampleImage = Some r \<and>
      sectorAt r 3 1 = sectorAt exampleImage 3 14 \<and>
      sectorAt r 3 14 = sectorAt exampleImage 3 1 \<and>
      sectorAt r 3 0 = sectorAt exampleImage 3 0 \<and>
      sectorAt r 3 1 ! 0 = 62 \<and>
      sectorAt exampleImage 3 1 ! 0 = 49" by (intro conjI)
  then have "\<exists>reordered. convertDiskImageFromProdosOrderToDos33Order exampleImage = Some reordered \<and>
      sectorAt reordered 3 1 = sectorAt exampleImage 3 14 \<and>
      sectorAt reordered 3 14 = sectorAt exampleImage 3 1 \<and>
      sectorAt reordered 3 0 = sectorAt exampleImage 3 0 \<and>
      sectorAt reordered 3 1 ! 0 = 62 \<and>
      sectorAt exampleImage 3 1 ! 0 = 49" by (rule exI)
  with h show ?thesis by (rule conjI)
qed

end
